theory Spec2Isabelle
  imports Complex_Main "HOL-Library.Word"
begin

section \<open>JavaScript strings\<close>

text \<open>
  A JavaScript string is a sequence of 16-bit code units. Program constants written in
  ASCII are embedded with \<open>js\<close>.
\<close>

type_synonym jschar = "16 word"
type_synonym jsstring = "jschar list"

definition js :: "string \<Rightarrow> jsstring" where
  "js s = map (\<lambda>c. of_char c) s"

definition CR :: jschar where
  "CR = 0x0D"

definition LF :: jschar where
  "LF = 0x0A"

text \<open>
  The code units that \<open>String.prototype.trimEnd\<close> strips: ECMAScript WhiteSpace
  (TAB, VT, FF, SP, NBSP, ZWNBSP and the category Zs) and LineTerminator.
\<close>

definition is_whitespace :: "jschar \<Rightarrow> bool" where
  "is_whitespace c \<longleftrightarrow>
     c \<in> {0x09, 0x0A, 0x0B, 0x0C, 0x0D, 0x20, 0xA0, 0x1680,
          0x2000, 0x2001, 0x2002, 0x2003, 0x2004, 0x2005, 0x2006, 0x2007,
          0x2008, 0x2009, 0x200A, 0x2028, 0x2029, 0x202F, 0x205F, 0x3000, 0xFEFF}"

definition trimEnd :: "jsstring \<Rightarrow> jsstring" where
  "trimEnd s = rev (dropWhile is_whitespace (rev s))"

text \<open>
  \<open>content.replace(/\r?\n/g, "\r\n")\<close>: scanning from the left, every match of
  CR LF or of a lone LF is replaced by CR LF; replaced text is not scanned again.
\<close>

fun replace_lf_by_crlf :: "jsstring \<Rightarrow> jsstring" where
  "replace_lf_by_crlf [] = []"
| "replace_lf_by_crlf [c] = (if c = LF then [CR, LF] else [c])"
| "replace_lf_by_crlf (c # d # ds) =
     (if c = CR \<and> d = LF then CR # LF # replace_lf_by_crlf ds
      else if c = LF then CR # LF # replace_lf_by_crlf (d # ds)
      else c # replace_lf_by_crlf (d # ds))"

text \<open>\<open>content.replace(/\r\n/g, "\n")\<close>.\<close>

fun replace_crlf_by_lf :: "jsstring \<Rightarrow> jsstring" where
  "replace_crlf_by_lf [] = []"
| "replace_crlf_by_lf [c] = [c]"
| "replace_crlf_by_lf (c # d # ds) =
     (if c = CR \<and> d = LF then LF # replace_crlf_by_lf ds
      else c # replace_crlf_by_lf (d # ds))"

definition CONTENT_VARIATORS :: "(jsstring \<Rightarrow> jsstring) list" where
  "CONTENT_VARIATORS =
     [\<lambda>content. content,
      \<lambda>content. replace_lf_by_crlf content,
      \<lambda>content. replace_crlf_by_lf content]"

definition ENDING_VARIATORS :: "(jsstring \<Rightarrow> jsstring) list" where
  "ENDING_VARIATORS =
     [\<lambda>content. content,
      \<lambda>content. trimEnd content,
      \<lambda>content. trimEnd content @ [LF],
      \<lambda>content. trimEnd content @ [CR, LF],
      \<lambda>content. content @ [LF],
      \<lambda>content. content @ [CR, LF]]"

text \<open>
  The two nested loops of \<open>generateVariations\<close>, each \<open>push\<close> appending to the
  array \<open>variations\<close>.
\<close>

definition variations_inner :: "jsstring \<Rightarrow> jsstring list \<Rightarrow> jsstring list" where
  "variations_inner variatedContent variations =
     fold (\<lambda>endingVariator vs. vs @ [endingVariator variatedContent]) ENDING_VARIATORS variations"

definition variations_of :: "jsstring \<Rightarrow> jsstring list" where
  "variations_of original =
     fold (\<lambda>contentVariator vs. variations_inner (contentVariator original) vs)
       CONTENT_VARIATORS []"


section \<open>JavaScript values\<close>

text \<open>
  The values \<open>JSON.parse\<close> can return, and \<open>undefined\<close>, which reading an absent
  property yields. An object is the list of its own properties in the order \<open>for ... in\<close>
  enumerates them; where a key is listed twice the first entry is the property.
\<close>

datatype jsnum = Finite rat | PosInf | NegInf | NaN

datatype jsval =
    Undefined
  | JNull
  | JBool bool
  | JNum jsnum
  | JStr jsstring
  | JArr "jsval list"
  | JObj "(jsstring \<times> jsval) list"

text \<open>
  What the service throws: the Error of \<open>splitFiles\<close> that no metadata file was found,
  its Error that metadata files are malformed (with the paths the message lists), the
  Error of \<open>unzip\<close> (with the path of the archive), the TypeError and SyntaxError of
  the language itself, and what \<open>Web3.utils.keccak256\<close> throws.
\<close>

datatype error =
    NoManifestsFound
  | MalformedManifests "jsstring list"
  | ArchiveUnreadable jsstring
  | TypeError
  | SyntaxError
  | HashError

text \<open>ToBoolean, as used by \<open>!!x\<close>, \<open>!x\<close> and \<open>if (x)\<close>.\<close>

fun truthy :: "jsval \<Rightarrow> bool" where
  "truthy Undefined = False"
| "truthy JNull = False"
| "truthy (JBool b) = b"
| "truthy (JNum n) = (n \<noteq> Finite 0 \<and> n \<noteq> NaN)"
| "truthy (JStr s) = (s \<noteq> [])"
| "truthy (JArr xs) = True"
| "truthy (JObj kvs) = True"

text \<open>
  \<open>v[k]\<close> for a value that is neither \<open>null\<close> nor \<open>undefined\<close> and a property name
  \<open>k\<close> that is neither an index nor a built-in property of strings and arrays (the
  names this program reads by name are \<open>language\<close>, \<open>settings\<close>, \<open>sources\<close>,
  \<open>content\<close> and the like): an own property of an object, \<open>undefined\<close> otherwise.
\<close>

fun get :: "jsval \<Rightarrow> jsstring \<Rightarrow> jsval" where
  "get (JObj kvs) k = (case map_of kvs k of Some v \<Rightarrow> v | None \<Rightarrow> Undefined)"
| "get v k = Undefined"

text \<open>\<open>v?.k\<close>\<close>

definition opt_get :: "jsval \<Rightarrow> jsstring \<Rightarrow> jsval" where
  "opt_get v k = (if v = Undefined \<or> v = JNull then Undefined else get v k)"

text \<open>\<open>v.k\<close>, which throws a TypeError on \<open>null\<close> and \<open>undefined\<close>.\<close>

definition dot :: "jsval \<Rightarrow> jsstring \<Rightarrow> error + jsval" where
  "dot v k = (if v = Undefined \<or> v = JNull then Inl TypeError else Inr (get v k))"

text \<open>The decimal numeral of an array index.\<close>

fun index_str :: "nat \<Rightarrow> jsstring" where
  "index_str n =
     (if n < 10 then [of_nat (48 + n)]
      else index_str (n div 10) @ [of_nat (48 + n mod 10)])"

declare index_str.simps [simp del]

function own_properties :: "(jsstring \<times> 'v) list \<Rightarrow> (jsstring \<times> 'v) list" where
  "own_properties [] = []"
| "own_properties ((k, v) # kvs) = (k, v) # own_properties (filter (\<lambda>kv. fst kv \<noteq> k) kvs)"
  by pat_completeness auto
termination
  by (relation "measure length") (auto simp: less_Suc_eq_le)

text \<open>
  The pairs \<open>(k, v[k])\<close> that \<open>for (const k in v)\<close> visits, which are also the keys
  \<open>Object.keys(v)\<close> returns: the own properties of an object, the indices of an array or
  of a string, nothing for any other value (\<open>null\<close> and \<open>undefined\<close> included).
\<close>

fun entries :: "jsval \<Rightarrow> (jsstring \<times> jsval) list" where
  "entries (JObj kvs) = own_properties kvs"
| "entries (JArr xs) = zip (map index_str [0..<length xs]) xs"
| "entries (JStr s) = zip (map index_str [0..<length s]) (map (\<lambda>c. JStr [c]) s)"
| "entries v = []"

section \<open>Files and the library functions the service calls\<close>

text \<open>
  The fields \<open>path\<close>, \<open>buffer\<close> and \<open>content\<close> of the two kinds of files carry a
  prefix, as field names are global here (likewise \<open>keccak256\<close> and \<open>urls\<close> of a
  missing source below).
\<close>

record PathBuffer =
  pb_path :: jsstring
  pb_buffer :: "8 word list"

record PathContent =
  pc_content :: jsval
  pc_path :: jsstring

text \<open>
  The library functions are parameters of the model:
  \<^item> \<open>JSON_parse\<close>: \<open>JSON.parse\<close> on a string, \<open>None\<close> where it throws;
  \<^item> \<open>Number_toString\<close>: the string of a number;
  \<^item> \<open>ToNumber\<close>: the number a string converts to;
  \<^item> \<open>keccak256\<close>: what \<open>Web3.utils.keccak256\<close> returns, a hex string or \<open>null\<close>
    (\<open>None\<close>);
  \<^item> \<open>keccak256_throws\<close>: whether \<open>Web3.utils.keccak256\<close> throws on the value
    instead of returning (as the library does on values it cannot hash);
  \<^item> \<open>Buffer_toString\<close>: \<open>buffer.toString()\<close>;
  \<^item> \<open>JSZip_files\<close>: the members of an archive with their contents, \<open>None\<close> where
    loading the archive or reading a member throws.
\<close>

record ext =
  JSON_parse :: "jsstring \<Rightarrow> jsval option"
  Number_toString :: "jsnum \<Rightarrow> jsstring"
  ToNumber :: "jsstring \<Rightarrow> jsnum"
  keccak256 :: "jsval \<Rightarrow> jsstring option"
  keccak256_throws :: "jsval \<Rightarrow> bool"
  Buffer_toString :: "8 word list \<Rightarrow> jsstring"
  JSZip_files :: "8 word list \<Rightarrow> (jsstring \<times> 8 word list) list option"

fun join_comma :: "jsstring list \<Rightarrow> jsstring" where
  "join_comma [] = []"
| "join_comma [s] = s"
| "join_comma (s # t # ts) = s @ of_char CHR '','' # join_comma (t # ts)"

text \<open>The string a value converts to, as \<open>JSON.parse\<close> and \<open>==\<close> convert it.\<close>

fun ToString :: "ext \<Rightarrow> jsval \<Rightarrow> jsstring" where
  "ToString E Undefined = js ''undefined''"
| "ToString E JNull = js ''null''"
| "ToString E (JBool b) = (if b then js ''true'' else js ''false'')"
| "ToString E (JNum n) = Number_toString E n"
| "ToString E (JStr s) = s"
| "ToString E (JArr xs) =
     join_comma (map (\<lambda>x. if x = Undefined \<or> x = JNull then [] else ToString E x) xs)"
| "ToString E (JObj kvs) = js ''[object Object]''"

section \<open>Recognising metadata\<close>

definition isMetadata :: "jsval \<Rightarrow> bool" where
  "isMetadata obj \<longleftrightarrow>
     opt_get obj (js ''language'') = JStr (js ''Solidity'') \<and>
     truthy (opt_get (opt_get obj (js ''settings'')) (js ''compilationTarget'')) \<and>
     truthy (opt_get obj (js ''version'')) \<and>
     truthy (opt_get (opt_get obj (js ''output'')) (js ''abi'')) \<and>
     truthy (opt_get (opt_get obj (js ''output'')) (js ''userdoc'')) \<and>
     truthy (opt_get (opt_get obj (js ''output'')) (js ''devdoc'')) \<and>
     truthy (opt_get obj (js ''sources''))"

text \<open>
  \<open>extractMetadataFromString\<close>: both \<open>JSON.parse\<close> calls sit in one \<open>try\<close> whose
  \<open>catch\<close> falls through to \<open>return null\<close>. The second call parses the string the
  first result converts to.
\<close>

definition extractMetadataFromString :: "ext \<Rightarrow> jsval \<Rightarrow> jsval" where
  "extractMetadataFromString E file =
     (case JSON_parse E (ToString E file) of
        None \<Rightarrow> JNull
      | Some obj \<Rightarrow>
          if isMetadata obj then obj
          else (case JSON_parse E (ToString E obj) of
                  None \<Rightarrow> JNull
                | Some obj2 \<Rightarrow> if isMetadata obj2 then obj2 else JNull))"

text \<open>\<open>assertObjectSize\<close>; \<open>None\<close> is the thrown Error.\<close>

definition assertObjectSize :: "jsval \<Rightarrow> nat \<Rightarrow> unit option" where
  "assertObjectSize object expectedSize =
     (if \<not> truthy object then None
      else if length (entries object) \<noteq> expectedSize then None
      else Some ())"


text \<open>Sequencing of steps that may throw.\<close>

definition ebind :: "error + 'a \<Rightarrow> ('a \<Rightarrow> error + 'b) \<Rightarrow> error + 'b" where
  "ebind r f = (case r of Inl e \<Rightarrow> Inl e | Inr x \<Rightarrow> f x)"

fun fold_err :: "('s \<Rightarrow> 'a \<Rightarrow> error + 's) \<Rightarrow> 'a list \<Rightarrow> 's \<Rightarrow> error + 's" where
  "fold_err f [] s = Inr s"
| "fold_err f (x # xs) s = ebind (f s x) (fold_err f xs)"

text \<open>\<open>s.match(re)\<close> is not \<open>null\<close>, for a regular expression that is a literal text.\<close>

fun matches_literal :: "jsstring \<Rightarrow> jsstring \<Rightarrow> bool" where
  "matches_literal pat [] = (pat = [])"
| "matches_literal pat (c # cs) = (take (length pat) (c # cs) = pat \<or> matches_literal pat cs)"

text \<open>\<open>HARDHAT_OUTPUT_FORMAT_REGEX\<close>: the text \<open>hh-sol-build-info-1\<close> in double quotes.\<close>

definition HARDHAT_OUTPUT_FORMAT :: jsstring where
  "HARDHAT_OUTPUT_FORMAT = 0x22 # js ''hh-sol-build-info-1'' @ [0x22]"

text \<open>
  \<open>NESTED_METADATA_REGEX\<close> is a literal prefix, a lazy \<open>.*?\<close> and a literal suffix,
  where a backslash is the code unit 0x5C and a double quote 0x22.
\<close>

definition NESTED_PREFIX :: jsstring where
  "NESTED_PREFIX =
     [0x22, 0x7B, 0x5C, 0x22] @ js ''compiler'' @ [0x5C, 0x22, 0x3A, 0x7B, 0x5C, 0x22]
       @ js ''version'' @ [0x5C, 0x22]"

definition NESTED_SUFFIX :: jsstring where
  "NESTED_SUFFIX =
     [0x7D, 0x2C, 0x5C, 0x22] @ js ''version'' @ [0x5C, 0x22, 0x3A, 0x31, 0x7D, 0x22]"

definition is_line_terminator :: "jschar \<Rightarrow> bool" where
  "is_line_terminator c \<longleftrightarrow> c \<in> {0x0A, 0x0D, 0x2028, 0x2029}"

text \<open>
  The shortest text matching \<open>.*?\<close> followed by the suffix at the start of \<open>t\<close>; the
  dot matches no line terminator.
\<close>

fun lazy_to_suffix :: "jsstring \<Rightarrow> jsstring option" where
  "lazy_to_suffix [] = (if NESTED_SUFFIX = [] then Some [] else None)"
| "lazy_to_suffix (c # cs) =
     (if take (length NESTED_SUFFIX) (c # cs) = NESTED_SUFFIX then Some NESTED_SUFFIX
      else if is_line_terminator c then None
      else map_option ((#) c) (lazy_to_suffix cs))"

definition nested_match_here :: "jsstring \<Rightarrow> jsstring option" where
  "nested_match_here s =
     (if take (length NESTED_PREFIX) s = NESTED_PREFIX
      then map_option ((@) NESTED_PREFIX) (lazy_to_suffix (drop (length NESTED_PREFIX) s))
      else None)"

text \<open>\<open>content.match(NESTED_METADATA_REGEX)\<close>: the leftmost match, \<open>matchRes[0]\<close>.\<close>

fun nested_match :: "jsstring \<Rightarrow> jsstring option" where
  "nested_match [] = nested_match_here []"
| "nested_match (c # cs) =
     (case nested_match_here (c # cs) of
        Some m \<Rightarrow> Some m
      | None \<Rightarrow> nested_match cs)"

subsection \<open>Build-info bundles\<close>

fun hardhat_sources :: "(jsstring \<times> jsval) list \<Rightarrow> PathContent list \<Rightarrow> error + PathContent list" where
  "hardhat_sources [] hardhatSourceFiles = Inr hardhatSourceFiles"
| "hardhat_sources ((path, v) # rest) hardhatSourceFiles =
     ebind (dot v (js ''content'')) (\<lambda>content.
       hardhat_sources rest
         (if truthy content
          then hardhatSourceFiles @ [\<lparr>pc_content = content, pc_path = path\<rparr>]
          else hardhatSourceFiles))"

fun hardhat_contract :: "ext \<Rightarrow> (jsstring \<times> jsval) list \<Rightarrow> jsval list \<Rightarrow> error + jsval list" where
  "hardhat_contract E [] hardhatMetadataFiles = Inr hardhatMetadataFiles"
| "hardhat_contract E ((contractName, w) # rest) hardhatMetadataFiles =
     ebind (dot w (js ''metadata'')) (\<lambda>metadata.
       hardhat_contract E rest
         (if truthy metadata
          then hardhatMetadataFiles @ [extractMetadataFromString E metadata]
          else hardhatMetadataFiles))"

fun hardhat_contracts :: "ext \<Rightarrow> (jsstring \<times> jsval) list \<Rightarrow> jsval list \<Rightarrow> error + jsval list" where
  "hardhat_contracts E [] hardhatMetadataFiles = Inr hardhatMetadataFiles"
| "hardhat_contracts E ((path, v) # rest) hardhatMetadataFiles =
     ebind (hardhat_contract E (entries v) hardhatMetadataFiles) (hardhat_contracts E rest)"

definition extractHardhatMetadataAndSources ::
    "ext \<Rightarrow> jsstring \<Rightarrow> error + (jsval list \<times> PathContent list)" where
  "extractHardhatMetadataAndSources E content =
     (case JSON_parse E content of
        None \<Rightarrow> Inl SyntaxError
      | Some hardhatJson \<Rightarrow>
          ebind (dot hardhatJson (js ''input'')) (\<lambda>input.
          ebind (dot input (js ''sources'')) (\<lambda>hardhatSourceFilesObject.
          ebind (hardhat_sources (entries hardhatSourceFilesObject) []) (\<lambda>hardhatSourceFiles.
          ebind (dot hardhatJson (js ''output'')) (\<lambda>output.
          ebind (dot output (js ''contracts'')) (\<lambda>contractsObject.
          ebind (hardhat_contracts E (entries contractsObject) []) (\<lambda>hardhatMetadataFiles.
            Inr (hardhatMetadataFiles, hardhatSourceFiles))))))))"

subsection \<open>splitFiles\<close>

text \<open>
  The \<open>try\<close> around \<open>assertObjectSize(metadata.settings.compilationTarget, 1)\<close>: any
  throw inside it lands in the \<open>catch\<close>.
\<close>

definition single_compilationTarget :: "jsval \<Rightarrow> bool" where
  "single_compilationTarget metadata =
     (case dot metadata (js ''settings'') of
        Inl e \<Rightarrow> False
      | Inr settings \<Rightarrow>
          (case dot settings (js ''compilationTarget'') of
             Inl e \<Rightarrow> False
           | Inr compilationTarget \<Rightarrow> assertObjectSize compilationTarget 1 \<noteq> None))"

text \<open>The metadata a file that is no build-info bundle yields, \<open>null\<close> when it has none.\<close>

definition metadata_of_content :: "ext \<Rightarrow> jsstring \<Rightarrow> jsval" where
  "metadata_of_content E content =
     (let metadata = extractMetadataFromString E (JStr content)
      in if \<not> truthy metadata
         then (case nested_match content of
                 Some m \<Rightarrow> extractMetadataFromString E (JStr m)
               | None \<Rightarrow> metadata)
         else metadata)"

record split_state =
  metadataFiles :: "jsval list"
  sourceFiles :: "PathContent list"
  malformedMetadataFiles :: "jsstring list"

definition splitFiles_step :: "ext \<Rightarrow> split_state \<Rightarrow> PathContent \<Rightarrow> error + split_state" where
  "splitFiles_step E st file =
     (case pc_content file of
        JStr content \<Rightarrow>
          if matches_literal HARDHAT_OUTPUT_FORMAT content
          then ebind (extractHardhatMetadataAndSources E content) (\<lambda>(hm, hs).
                 Inr (st\<lparr>sourceFiles := sourceFiles st @ hs,
                         metadataFiles := metadataFiles st @ hm\<rparr>))
          else
            (let metadata = metadata_of_content E content
             in if truthy metadata
                then (if single_compilationTarget metadata
                      then Inr (st\<lparr>metadataFiles := metadataFiles st @ [metadata]\<rparr>)
                      else Inr (st\<lparr>malformedMetadataFiles :=
                                      malformedMetadataFiles st @ [pc_path file]\<rparr>))
                else Inr (st\<lparr>sourceFiles := sourceFiles st @ [file]\<rparr>))
      | _ \<Rightarrow> Inl TypeError)"

definition splitFiles :: "ext \<Rightarrow> PathContent list \<Rightarrow> error + (jsval list \<times> PathContent list)" where
  "splitFiles E files =
     ebind (fold_err (splitFiles_step E) files
              \<lparr>metadataFiles = [], sourceFiles = [], malformedMetadataFiles = []\<rparr>)
       (\<lambda>st. if malformedMetadataFiles st \<noteq> [] then Inl (MalformedManifests (malformedMetadataFiles st))
             else if metadataFiles st = [] then Inl NoManifestsFound
             else Inr (metadataFiles st, sourceFiles st))"


section \<open>The hash index\<close>

definition generateVariations :: "PathContent \<Rightarrow> error + PathContent list" where
  \<comment> \<open>\<open>content.replace\<close> is a TypeError when the content is no string\<close>
  "generateVariations pathContent =
     (case pc_content pathContent of
        JStr original \<Rightarrow>
          Inr (map (\<lambda>content. \<lparr>pc_content = JStr content, pc_path = pc_path pathContent\<rparr>)
                 (variations_of original))
      | _ \<Rightarrow> Inl TypeError)"

text \<open>A hash as a key of the index: the hex string, or \<open>null\<close>.\<close>

definition hash_value :: "jsstring option \<Rightarrow> jsval" where
  "hash_value h = (case h of None \<Rightarrow> JNull | Some s \<Rightarrow> JStr s)"

definition store_variation :: "ext \<Rightarrow> PathContent \<Rightarrow> (jsval \<rightharpoonup> PathContent) \<Rightarrow> (jsval \<rightharpoonup> PathContent)" where
  "store_variation E variation byHash =
     (let calculatedHash = keccak256 E (pc_content variation)
      in byHash(hash_value calculatedHash \<mapsto> variation))"

text \<open>
  The inner loop of \<open>storeByHash\<close> for one file. When hashing a variation throws, the
  index built so far is lost with the call.
\<close>

definition storeByHash_step ::
    "ext \<Rightarrow> (jsval \<rightharpoonup> PathContent) \<Rightarrow> PathContent \<Rightarrow> error + (jsval \<rightharpoonup> PathContent)" where
  "storeByHash_step E byHash pathContent =
     ebind (generateVariations pathContent) (\<lambda>vs.
       if list_ex (\<lambda>variation. keccak256_throws E (pc_content variation)) vs
       then Inl HashError
       else Inr (fold (store_variation E) vs byHash))"

definition storeByHash :: "ext \<Rightarrow> PathContent list \<Rightarrow> error + (jsval \<rightharpoonup> PathContent)" where
  "storeByHash E files = fold_err (storeByHash_step E) files Map.empty"

section \<open>Reconciling a manifest with the index\<close>

record MissingSource =
  ms_keccak256 :: jsval
  ms_urls :: jsval

record InvalidSource =
  expectedHash :: jsval
  calculatedHash :: "jsstring option"
  msg :: jsstring

text \<open>
  An object that the service creates with \<open>{}\<close> and fills by \<open>obj[k] = v\<close> is the map
  of its own properties. The assignment creates or overwrites the own property \<open>k\<close>,
  except for the key \<open>__proto__\<close> on an object that has no own property of that name
  and the prototype it was created with: there the assignment reaches the accessor of
  \<open>Object.prototype\<close>, which replaces the prototype of the object when \<open>v\<close> is an
  object or \<open>null\<close> and does nothing otherwise; no own property is created. The
  prototype is not part of the maps: \<open>Object.keys\<close>, \<open>Object.values\<close> and
  \<open>Object.assign\<close>, by which these objects are read, see own properties only.

  In \<open>rearrangeSources\<close> each object is assigned under each key at most once, as the
  keys of \<open>metadata.sources\<close> are distinct: when the key \<open>__proto__\<close> is assigned, the
  object has no own property of that name and the prototype it was created with.
\<close>

definition set_property :: "jsstring \<Rightarrow> 'v \<Rightarrow> (jsstring \<rightharpoonup> 'v) \<Rightarrow> (jsstring \<rightharpoonup> 'v)" where
  "set_property k v obj = (if k = js ''__proto__'' then obj else obj(k \<mapsto> v))"

text \<open>
  The result of \<open>rearrangeSources\<close>: the three objects that partition the sources, and
  \<open>metadata2provided\<close>, whose values \<open>checkFiles\<close> lists with \<open>Object.values\<close>
  and which is a list of pairs. The order of the list does not matter to what follows:
  \<open>extractUnused\<close> makes a set of the values.
\<close>

record rearranged =
  foundSources :: "jsstring \<rightharpoonup> jsval"
  missingSources :: "jsstring \<rightharpoonup> MissingSource"
  invalidSources :: "jsstring \<rightharpoonup> InvalidSource"
  metadata2provided :: "(jsstring \<times> jsstring) list"

text \<open>
  \<open>contentHash == expectedHash\<close>, the left side being a string or \<open>null\<close>: two
  strings are compared as they are, \<open>null\<close> equals \<open>null\<close> and \<open>undefined\<close> only, a
  number or boolean is compared with the number the string converts to, an array or
  object with the string it converts to.
\<close>

fun loose_eq :: "ext \<Rightarrow> jsstring option \<Rightarrow> jsval \<Rightarrow> bool" where
  "loose_eq E None v = (v = JNull \<or> v = Undefined)"
| "loose_eq E (Some h) (JStr s) = (h = s)"
| "loose_eq E (Some h) (JNum n) = (n \<noteq> NaN \<and> ToNumber E h = n)"
| "loose_eq E (Some h) (JBool b) = (ToNumber E h = Finite (if b then 1 else 0))"
| "loose_eq E (Some h) (JArr xs) = (h = ToString E (JArr xs))"
| "loose_eq E (Some h) (JObj kvs) = (h = ToString E (JObj kvs))"
| "loose_eq E (Some h) Undefined = False"
| "loose_eq E (Some h) JNull = False"

definition HASH_MISMATCH_MSG :: jsstring where
  "HASH_MISMATCH_MSG = js ''The keccak256 given in the metadata and the calculated keccak256 of the source content in metadata don't match''"

text \<open>
  \<open>obj[k] = v\<close> on an object that is kept as a list of pairs: the value under an
  ordinary key is overwritten or added, the key \<open>__proto__\<close> creates no property.
\<close>

fun assign :: "jsstring \<Rightarrow> 'v \<Rightarrow> (jsstring \<times> 'v) list \<Rightarrow> (jsstring \<times> 'v) list" where
  "assign k v [] = [(k, v)]"
| "assign k v (p # ps) = (if fst p = k then (k, v) # ps else p # assign k v ps)"

definition set_listed_property ::
    "jsstring \<Rightarrow> 'v \<Rightarrow> (jsstring \<times> 'v) list \<Rightarrow> (jsstring \<times> 'v) list" where
  "set_listed_property k v obj = (if k = js ''__proto__'' then obj else assign k v obj)"

text \<open>
  One iteration of the loop of \<open>rearrangeSources\<close>. The local \<open>file\<close> is
  represented by its \<open>content\<close>.
\<close>

definition rearrange_source ::
    "ext \<Rightarrow> (jsval \<rightharpoonup> PathContent) \<Rightarrow> rearranged \<Rightarrow> jsstring \<times> jsval \<Rightarrow> error + rearranged" where
  "rearrange_source E byHash r entry =
     (let sourcePath = fst entry; sourceInfoFromMetadata = snd entry
      in ebind (dot sourceInfoFromMetadata (js ''content'')) (\<lambda>content.
           let expectedHash = get sourceInfoFromMetadata (js ''keccak256'')
           in if truthy content \<and> keccak256_throws E content
              then Inl HashError
              else if truthy content \<and> \<not> loose_eq E (keccak256 E content) expectedHash
              then Inr (r\<lparr>invalidSources := set_property sourcePath
                          \<lparr>expectedHash = expectedHash,
                           calculatedHash = keccak256 E content,
                           msg = HASH_MISMATCH_MSG\<rparr> (invalidSources r)\<rparr>)
              else
                (let (file_content, r1) =
                       (if truthy content then (content, r)
                        else (case byHash expectedHash of
                                Some pathContent \<Rightarrow>
                                  (pc_content pathContent,
                                   r\<lparr>metadata2provided :=
                                       set_listed_property sourcePath (pc_path pathContent)
                                         (metadata2provided r)\<rparr>)
                              | None \<Rightarrow> (content, r)))
                 in if truthy file_content
                    then Inr (r1\<lparr>foundSources :=
                                set_property sourcePath file_content (foundSources r1)\<rparr>)
                    else Inr (r1\<lparr>missingSources := set_property sourcePath
                                \<lparr>ms_keccak256 = expectedHash,
                                 ms_urls = get sourceInfoFromMetadata (js ''urls'')\<rparr>
                                (missingSources r1)\<rparr>))))"

definition rearrangeSources :: "ext \<Rightarrow> jsval \<Rightarrow> (jsval \<rightharpoonup> PathContent) \<Rightarrow> error + rearranged" where
  "rearrangeSources E metadata byHash =
     ebind (dot metadata (js ''sources'')) (\<lambda>sources.
       fold_err (rearrange_source E byHash) (entries sources)
         \<lparr>foundSources = Map.empty, missingSources = Map.empty,
          invalidSources = Map.empty, metadata2provided = []\<rparr>)"

section \<open>Archives\<close>

definition byte_at :: "8 word list \<Rightarrow> nat \<Rightarrow> 8 word option" where
  "byte_at file i = (if i < length file then Some (file ! i) else None)"

definition isZip :: "8 word list \<Rightarrow> bool" where
  "isZip file \<longleftrightarrow>
     byte_at file 0 = Some 0x50 \<and> byte_at file 1 = Some 0x4b \<and>
     (byte_at file 2 = Some 0x03 \<or> byte_at file 2 = Some 0x05 \<or> byte_at file 2 = Some 0x07) \<and>
     (byte_at file 3 = Some 0x04 \<or> byte_at file 3 = Some 0x06 \<or> byte_at file 3 = Some 0x08)"

definition unzip :: "ext \<Rightarrow> PathBuffer \<Rightarrow> error + PathBuffer list" where
  "unzip E zippedFile =
     (case JSZip_files E (pb_buffer zippedFile) of
        None \<Rightarrow> Inl (ArchiveUnreadable (pb_path zippedFile))
      | Some members \<Rightarrow>
          Inr (map (\<lambda>(filePath, buffer). \<lparr>pb_path = filePath, pb_buffer = buffer\<rparr>) members))"

text \<open>
  The loop of \<open>unzipFiles\<close> over the caller's array. The array is \<open>kept @ rest\<close> with
  the index \<open>i\<close> at the head of \<open>rest\<close>: an archive is spliced out (and \<open>i\<close> stays), any
  other file is stepped over. The result is the array as the loop leaves it, with the
  exception thrown or the members collected in \<open>allUnzipped\<close>.
\<close>

fun unzip_loop ::
    "ext \<Rightarrow> PathBuffer list \<Rightarrow> PathBuffer list \<Rightarrow> PathBuffer list
       \<Rightarrow> PathBuffer list \<times> (error + PathBuffer list)" where
  "unzip_loop E kept [] allUnzipped = (kept, Inr allUnzipped)"
| "unzip_loop E kept (file # rest) allUnzipped =
     (if isZip (pb_buffer file)
      then (case unzip E file of
              Inl e \<Rightarrow> (kept @ file # rest, Inl e)
            | Inr unzipped \<Rightarrow> unzip_loop E kept rest (allUnzipped @ unzipped))
      else unzip_loop E (kept @ [file]) rest allUnzipped)"

text \<open>\<open>unzipFiles\<close>: the caller's array afterwards, and the exception if one was thrown.\<close>

definition unzipFiles :: "ext \<Rightarrow> PathBuffer list \<Rightarrow> PathBuffer list \<times> error option" where
  "unzipFiles E files =
     (case unzip_loop E [] files [] of
        (files', Inl e) \<Rightarrow> (files', Some e)
      | (files', Inr allUnzipped) \<Rightarrow> (files' @ allUnzipped, None))"

section \<open>The validation service\<close>

text \<open>
  Modelled from the spec: the class \<open>CheckedContract\<close> of the core package, which is not
  among the sources. The spec has it as a metadata manifest bound to the mappings found,
  missing and invalid, and \<open>new CheckedContract(metadata, solidity, missing, invalid)\<close>
  is the record of its four arguments; \<open>solidity\<close> is the map of found sources. What
  \<open>checkFiles\<close> writes to the logger (\<open>isValid\<close>, \<open>getInfo\<close>) is left out.
\<close>

record CheckedContract =
  metadata :: jsval
  solidity :: "jsstring \<rightharpoonup> jsval"
  missing :: "jsstring \<rightharpoonup> MissingSource"
  invalid :: "jsstring \<rightharpoonup> InvalidSource"

definition parse_files :: "ext \<Rightarrow> PathBuffer list \<Rightarrow> PathContent list" where
  "parse_files E files =
     map (\<lambda>pathBuffer. \<lparr>pc_content = JStr (Buffer_toString E (pb_buffer pathBuffer)),
                        pc_path = pb_path pathBuffer\<rparr>) files"

definition extractUnused :: "PathContent list \<Rightarrow> jsstring list \<Rightarrow> jsstring list \<Rightarrow> jsstring list" where
  "extractUnused inputFiles usedFiles unused =
     unused @ filter (\<lambda>file. file \<notin> set usedFiles) (map pc_path inputFiles)"

text \<open>The body of \<open>metadataFiles.forEach\<close> in \<open>checkFiles\<close>.\<close>

definition check_metadata ::
    "ext \<Rightarrow> (jsval \<rightharpoonup> PathContent) \<Rightarrow> CheckedContract list \<times> jsstring list \<Rightarrow> jsval
       \<Rightarrow> error + (CheckedContract list \<times> jsstring list)" where
  "check_metadata E byHash acc manifest =
     ebind (rearrangeSources E manifest byHash) (\<lambda>r.
       let currentUsedFiles = map snd (metadata2provided r);
           usedFiles = snd acc @ currentUsedFiles;
           checkedContract = \<lparr>metadata = manifest, solidity = foundSources r,
                              missing = missingSources r, invalid = invalidSources r\<rparr>
       in Inr (fst acc @ [checkedContract], usedFiles))"

text \<open>
  \<open>checkFiles\<close> returns the caller's array \<open>files\<close> and the caller's array \<open>unused\<close>
  (when one was passed) as the call leaves them, and the contracts or the exception.
\<close>

record check_result =
  files_after :: "PathBuffer list"
  unused_after :: "jsstring list option"
  outcome :: "error + CheckedContract list"

definition checkFiles :: "ext \<Rightarrow> PathBuffer list \<Rightarrow> jsstring list option \<Rightarrow> check_result" where
  "checkFiles E files unused =
     (case unzipFiles E files of
        (files', Some e) \<Rightarrow> \<lparr>files_after = files', unused_after = unused, outcome = Inl e\<rparr>
      | (files', None) \<Rightarrow>
          (case splitFiles E (parse_files E files') of
             Inl e \<Rightarrow> \<lparr>files_after = files', unused_after = unused, outcome = Inl e\<rparr>
           | Inr (metadataFiles', sourceFiles') \<Rightarrow>
               (case storeByHash E sourceFiles' of
                  Inl e \<Rightarrow> \<lparr>files_after = files', unused_after = unused, outcome = Inl e\<rparr>
                | Inr byHash \<Rightarrow>
                    (case fold_err (check_metadata E byHash) metadataFiles' ([], []) of
                       Inl e \<Rightarrow> \<lparr>files_after = files', unused_after = unused, outcome = Inl e\<rparr>
                     | Inr (checkedContracts, usedFiles) \<Rightarrow>
                         \<lparr>files_after = files',
                          unused_after = map_option (extractUnused sourceFiles' usedFiles) unused,
                          outcome = Inr checkedContracts\<rparr>))))"

text \<open>
  \<open>pathContentArrayToStringMap\<close> may assign under one key more than once. The object it
  builds is the map of its own properties together with the value that has replaced its
  prototype, if one has. For such an object the key \<open>__proto__\<close> is an ordinary key once
  the object has an own property of that name, or once its prototype has been replaced by
  \<open>null\<close> or by an object that has an own property of that name (as an object made by
  \<open>JSON.parse\<close> can have): the assignment then no longer reaches the accessor of
  \<open>Object.prototype\<close>.
\<close>

definition inherits_proto_accessor :: "jsval option \<Rightarrow> bool" where
  "inherits_proto_accessor replaced \<longleftrightarrow>
     (case replaced of
        None \<Rightarrow> True
      | Some JNull \<Rightarrow> False
      | Some (JObj kvs) \<Rightarrow> map_of kvs (js ''__proto__'') = None
      | Some w \<Rightarrow> True)"

definition assign_property ::
    "jsstring \<Rightarrow> jsval \<Rightarrow> (jsstring \<rightharpoonup> jsval) \<times> jsval option
       \<Rightarrow> (jsstring \<rightharpoonup> jsval) \<times> jsval option" where
  "assign_property k v obj =
     (let (own, replaced) = obj
      in if k \<noteq> js ''__proto__'' \<or> own k \<noteq> None \<or> \<not> inherits_proto_accessor replaced
         then (own(k \<mapsto> v), replaced)
         else if v = JNull \<or> (case v of JObj kvs \<Rightarrow> True | JArr xs \<Rightarrow> True | _ \<Rightarrow> False)
         then (own, Some v)
         else (own, replaced))"

text \<open>
  \<open>Object.assign(target, origin)\<close>: every own property of \<open>origin\<close> is assigned to
  \<open>target\<close>. The result is the map of the own properties of \<open>target\<close> afterwards.
\<close>

definition Object_assign ::
    "(jsstring \<rightharpoonup> jsval) \<times> jsval option \<Rightarrow> (jsstring \<rightharpoonup> jsval) \<Rightarrow> (jsstring \<rightharpoonup> jsval)" where
  "Object_assign target origin =
     (\<lambda>k. case origin k of
             None \<Rightarrow> fst target k
           | Some v \<Rightarrow> fst (assign_property k v target) k)"

fun pathContentArrayToStringMap_loop ::
    "nat \<Rightarrow> PathContent list \<Rightarrow> (jsstring \<rightharpoonup> jsval) \<times> jsval option
       \<Rightarrow> (jsstring \<rightharpoonup> jsval) \<times> jsval option" where
  "pathContentArrayToStringMap_loop i [] stringMapResult = stringMapResult"
| "pathContentArrayToStringMap_loop i (elem # rest) stringMapResult =
     pathContentArrayToStringMap_loop (i + 1) rest
       (if pc_path elem \<noteq> []
        then assign_property (pc_path elem) (pc_content elem) stringMapResult
        else assign_property (js ''path-'' @ index_str i) (pc_content elem) stringMapResult)"

definition pathContentArrayToStringMap ::
    "PathContent list \<Rightarrow> (jsstring \<rightharpoonup> jsval) \<times> jsval option" where
  "pathContentArrayToStringMap pathContentArr =
     pathContentArrayToStringMap_loop 0 pathContentArr (Map.empty, None)"

record use_result =
  used_files_after :: "PathBuffer list"
  used_outcome :: "error + CheckedContract"

definition useAllSources :: "ext \<Rightarrow> CheckedContract \<Rightarrow> PathBuffer list \<Rightarrow> use_result" where
  "useAllSources E contract files =
     (case unzipFiles E files of
        (files', Some e) \<Rightarrow> \<lparr>used_files_after = files', used_outcome = Inl e\<rparr>
      | (files', None) \<Rightarrow>
          (case splitFiles E (parse_files E files') of
             Inl e \<Rightarrow> \<lparr>used_files_after = files', used_outcome = Inl e\<rparr>
           | Inr (metadataFiles', sourceFiles') \<Rightarrow>
               (let stringMapSourceFiles = pathContentArrayToStringMap sourceFiles';
                    stringMapSourceFiles = Object_assign stringMapSourceFiles (solidity contract)
                in \<lparr>used_files_after = files',
                    used_outcome = Inr \<lparr>metadata = metadata contract,
                                        solidity = stringMapSourceFiles,
                                        missing = missing contract,
                                        invalid = invalid contract\<rparr>\<rparr>)))"


section \<open>The chain monitor\<close>

text \<open>
  JavaScript numbers are taken as reals (block numbers as integers): rounding, infinities
  and NaN are not modelled. \<open>parseInt(process.env.X) || d\<close> is \<open>d\<close> when the variable is
  unset or no number (\<open>None\<close>) or parses to \<open>0\<close>.
\<close>

definition env_or :: "int option \<Rightarrow> real \<Rightarrow> real" where
  "env_or parsed d = (case parsed of None \<Rightarrow> d | Some n \<Rightarrow> if n = 0 then d else real_of_int n)"

record monitor_env =
  env_BLOCK_PAUSE_FACTOR :: "int option"
  env_BLOCK_PAUSE_UPPER_LIMIT :: "int option"
  env_BLOCK_PAUSE_LOWER_LIMIT :: "int option"
  env_GET_BLOCK_PAUSE :: "int option"

record monitor_config =
  BLOCK_PAUSE_FACTOR :: real
  BLOCK_PAUSE_UPPER_LIMIT :: real
  BLOCK_PAUSE_LOWER_LIMIT :: real

text \<open>The constants of the module; \<open>None\<close> when \<open>assert(BLOCK_PAUSE_FACTOR > 1)\<close> throws.\<close>

definition load_config :: "monitor_env \<Rightarrow> monitor_config option" where
  "load_config env =
     (let factor = env_or (env_BLOCK_PAUSE_FACTOR env) 1.1
      in if factor > 1
         then Some \<lparr>BLOCK_PAUSE_FACTOR = factor,
                    BLOCK_PAUSE_UPPER_LIMIT = env_or (env_BLOCK_PAUSE_UPPER_LIMIT env) (30 * 1000),
                    BLOCK_PAUSE_LOWER_LIMIT = env_or (env_BLOCK_PAUSE_LOWER_LIMIT env) (0.5 * 1000)\<rparr>
         else None)"

text \<open>The initial \<open>getBlockPause\<close> the constructor sets.\<close>

definition initial_getBlockPause :: "monitor_env \<Rightarrow> real" where
  "initial_getBlockPause env = env_or (env_GET_BLOCK_PAUSE env) (10 * 1000)"

datatype operation = increase | decrease

definition adaptBlockPause :: "monitor_config \<Rightarrow> operation \<Rightarrow> real \<Rightarrow> real" where
  "adaptBlockPause cfg operation getBlockPause =
     (let factor = (if operation = increase then BLOCK_PAUSE_FACTOR cfg
                    else 1 / BLOCK_PAUSE_FACTOR cfg);
          getBlockPause = getBlockPause * factor;
          getBlockPause = min getBlockPause (BLOCK_PAUSE_UPPER_LIMIT cfg);
          getBlockPause = max getBlockPause (BLOCK_PAUSE_LOWER_LIMIT cfg)
      in getBlockPause)"

record Transaction =
  tx_to :: "jsstring option"
  tx_from :: jsstring
  tx_nonce :: nat
  tx_input :: jsstring

definition createsContract :: "Transaction \<Rightarrow> bool" where
  "createsContract tx \<longleftrightarrow> \<not> (case tx_to tx of None \<Rightarrow> False | Some a \<Rightarrow> a \<noteq> [])"

text \<open>
  What \<open>getBlock\<close> answers: the promise is rejected, or resolved with \<open>null\<close> or with a
  block, of which the monitor reads the transactions.
\<close>

datatype fetch = Rejected | Resolved "Transaction list option"

text \<open>
  The loop over the transactions of a block in the \<open>then\<close> handler. Its collaborators
  are parameters: \<open>getContractAddress\<close> (\<open>ethers.utils.getContractAddress\<close>) and
  \<open>isVerified\<close> (a lookup in the verification service), functions of their argument
  here, \<open>None\<close> where the call throws. The loop hands the creation data and the address
  of each new contract to \<open>processBytecode\<close>, which starts a request and returns. The
  result is the list of these calls, and whether the loop ran to its end: it is \<open>False\<close>
  when a call threw, which leaves the handler with the calls made so far.
\<close>

fun transaction_loop ::
    "(Transaction \<Rightarrow> jsstring option) \<Rightarrow> (jsstring \<Rightarrow> bool option) \<Rightarrow> Transaction list
       \<Rightarrow> (jsstring \<times> jsstring) list \<Rightarrow> (jsstring \<times> jsstring) list \<times> bool" where
  "transaction_loop getContractAddress isVerified [] calls = (calls, True)"
| "transaction_loop getContractAddress isVerified (tx # rest) calls =
     (if createsContract tx
      then (case getContractAddress tx of
              None \<Rightarrow> (calls, False)
            | Some address \<Rightarrow>
                (case isVerified address of
                   None \<Rightarrow> (calls, False)
                 | Some verified \<Rightarrow>
                     transaction_loop getContractAddress isVerified rest
                       (if verified then calls else calls @ [(tx_input tx, address)])))
      else transaction_loop getContractAddress isVerified rest calls)"

record monitor =
  getBlockPause :: real
  running :: bool

record step_result =
  monitor_after :: monitor
  blockNumber_after :: int
  processBytecode_calls :: "(jsstring \<times> jsstring) list"
  rescheduled :: "(real \<times> int) option"

text \<open>
  One run of \<open>processBlock(blockNumber)\<close> with the answer of \<open>getBlock\<close>: the \<open>then\<close>
  handler, the \<open>catch\<close> handler, and the \<open>finally\<close> handler, which arms the timer for
  \<open>processBlock(blockNumber)\<close> after \<open>getBlockPause\<close> when the monitor is running. The
  \<open>catch\<close> handler takes the rejection of \<open>getBlock\<close> and also what the \<open>then\<close>
  handler throws: a throw in the loop over the transactions skips \<open>blockNumber++\<close>.
\<close>

definition processBlock ::
    "monitor_config \<Rightarrow> (Transaction \<Rightarrow> jsstring option) \<Rightarrow> (jsstring \<Rightarrow> bool option)
       \<Rightarrow> monitor \<Rightarrow> int \<Rightarrow> fetch \<Rightarrow> step_result" where
  "processBlock cfg getContractAddress isVerified m blockNumber answer =
     (let (m', blockNumber', calls) =
            (case answer of
               Rejected \<Rightarrow> (m, blockNumber, [])
             | Resolved None \<Rightarrow>
                 (m\<lparr>getBlockPause := adaptBlockPause cfg increase (getBlockPause m)\<rparr>,
                  blockNumber, [])
             | Resolved (Some transactions) \<Rightarrow>
                 (let (calls, completed) =
                        transaction_loop getContractAddress isVerified transactions []
                  in (m\<lparr>getBlockPause := adaptBlockPause cfg decrease (getBlockPause m)\<rparr>,
                      if completed then blockNumber + 1 else blockNumber,
                      calls)))
      in \<lparr>monitor_after = m', blockNumber_after = blockNumber', processBytecode_calls = calls,
          rescheduled = (if running m' then Some (getBlockPause m', blockNumber') else None)\<rparr>)"

text \<open>
  The life of one chain monitor after \<open>start\<close> called \<open>processBlock(startBlock)\<close>: each
  event is the answer to the pending \<open>getBlock\<close>, or a call of \<open>stop\<close>. The result lists,
  in the order of processing, every block whose transactions the monitor went through:
  its number, and whether the loop over its transactions ran to its end.
\<close>

datatype event = Answer fetch | Stop

fun poll ::
    "monitor_config \<Rightarrow> (Transaction \<Rightarrow> jsstring option) \<Rightarrow> (jsstring \<Rightarrow> bool option)
       \<Rightarrow> monitor \<Rightarrow> int \<Rightarrow> event list \<Rightarrow> (int \<times> bool) list" where
  "poll cfg gca ver m blockNumber [] = []"
| "poll cfg gca ver m blockNumber (Stop # es) = poll cfg gca ver (m\<lparr>running := False\<rparr>) blockNumber es"
| "poll cfg gca ver m blockNumber (Answer answer # es) =
     (let r = processBlock cfg gca ver m blockNumber answer;
          processed = (case answer of
                         Resolved (Some transactions) \<Rightarrow>
                           [(blockNumber, snd (transaction_loop gca ver transactions []))]
                       | _ \<Rightarrow> [])
      in processed @ (case rescheduled r of
                        None \<Rightarrow> []
                      | Some (pause, n) \<Rightarrow> poll cfg gca ver (monitor_after r) n es))"

section \<open>Notions used in the proofs\<close>

text \<open>
  What \<open>splitFiles\<close> does with one file of its input: a file that is no build-info
  bundle is discarded when it holds metadata that fails the single-target check; the
  manifests a file contributes are those harvested from a bundle, or the file's own
  metadata when it passes the check.
\<close>

definition discarded :: "ext \<Rightarrow> PathContent \<Rightarrow> bool" where
  "discarded E f \<longleftrightarrow>
     (case pc_content f of
        JStr content \<Rightarrow>
          \<not> matches_literal HARDHAT_OUTPUT_FORMAT content \<and>
          truthy (metadata_of_content E content) \<and>
          \<not> single_compilationTarget (metadata_of_content E content)
      | _ \<Rightarrow> False)"

definition manifests_of :: "ext \<Rightarrow> PathContent \<Rightarrow> jsval list" where
  "manifests_of E f =
     (case pc_content f of
        JStr content \<Rightarrow>
          if matches_literal HARDHAT_OUTPUT_FORMAT content
          then (case extractHardhatMetadataAndSources E content of
                  Inr (hm, hs) \<Rightarrow> hm
                | Inl e \<Rightarrow> [])
          else if truthy (metadata_of_content E content) \<and>
                  single_compilationTarget (metadata_of_content E content)
          then [metadata_of_content E content]
          else []
      | _ \<Rightarrow> [])"


definition sources_of :: "ext \<Rightarrow> PathContent \<Rightarrow> PathContent list" where
  "sources_of E f =
     (case pc_content f of
        JStr content \<Rightarrow>
          if matches_literal HARDHAT_OUTPUT_FORMAT content
          then (case extractHardhatMetadataAndSources E content of
                  Inr (hm, hs) \<Rightarrow> hs
                | Inl e \<Rightarrow> [])
          else if truthy (metadata_of_content E content) then []
          else [f]
      | _ \<Rightarrow> [])"


definition partitioned :: "rearranged \<Rightarrow> jsstring set \<Rightarrow> bool" where
  "partitioned r K \<longleftrightarrow>
     dom (foundSources r) \<union> dom (missingSources r) \<union> dom (invalidSources r) = K \<and>
     dom (foundSources r) \<inter> dom (missingSources r) = {} \<and>
     dom (foundSources r) \<inter> dom (invalidSources r) = {} \<and>
     dom (missingSources r) \<inter> dom (invalidSources r) = {}"

text \<open>What the reconciliation found for a key, it found by that key's entry.\<close>

definition verified_by :: "ext \<Rightarrow> (jsval \<rightharpoonup> PathContent) \<Rightarrow> jsval \<Rightarrow> jsval \<Rightarrow> bool" where
  "verified_by E byHash info c \<longleftrightarrow>
     (truthy (get info (js ''content'')) \<and> c = get info (js ''content'') \<and>
      loose_eq E (keccak256 E c) (get info (js ''keccak256'')))
     \<or> (\<not> truthy (get info (js ''content'')) \<and>
        (\<exists>pathContent. byHash (get info (js ''keccak256'')) = Some pathContent \<and>
                       pc_content pathContent = c))"

text \<open>Every entry of the hash index is a variation of a source, under its own hash.\<close>

definition indexed_from :: "ext \<Rightarrow> PathContent set \<Rightarrow> (jsval \<rightharpoonup> PathContent) \<Rightarrow> bool" where
  "indexed_from E S byHash \<longleftrightarrow>
     (\<forall>h pathContent. byHash h = Some pathContent \<longrightarrow>
        (\<exists>src s v. src \<in> S \<and> pc_content src = JStr s \<and> v \<in> set (variations_of s) \<and>
           pathContent = \<lparr>pc_content = JStr v, pc_path = pc_path src\<rparr> \<and>
           h = hash_value (keccak256 E (JStr v))))"

text \<open>The key under which \<open>pathContentArrayToStringMap\<close> stores the element at index \<open>i\<close>.\<close>

definition stringMap_key :: "nat \<Rightarrow> PathContent \<Rightarrow> jsstring" where
  "stringMap_key i elem = (if pc_path elem \<noteq> [] then pc_path elem else js ''path-'' @ index_str i)"

text \<open>
  The candidate sources with the keys under which \<open>pathContentArrayToStringMap\<close> stores
  them, in the order of the array.
\<close>

definition keyed_sources :: "PathContent list \<Rightarrow> (jsstring \<times> jsval) list" where
  "keyed_sources srcs =
     map (\<lambda>(i, elem). (stringMap_key i elem, pc_content elem)) (enumerate 0 srcs)"

text \<open>
  The variators in the words of the spec, by the places of a text. Replacing every LF,
  together with the CR before it if there is one, by CR LF puts a CR before every LF that
  has none before it and leaves the rest of the text as it is; replacing every CR LF by
  LF deletes every CR that an LF follows; the right-trim ends the text at the place from
  which only whitespace is left.
\<close>

definition spec_lf_to_crlf :: "jsstring \<Rightarrow> jsstring" where
  "spec_lf_to_crlf text =
     concat (map (\<lambda>(before, c). if c = LF \<and> before \<noteq> Some CR then [CR, LF] else [c])
               (zip (None # map Some text) text))"

definition spec_crlf_to_lf :: "jsstring \<Rightarrow> jsstring" where
  "spec_crlf_to_lf text =
     concat (map (\<lambda>(c, after). if c = CR \<and> after = Some LF then [] else [c])
               (zip text (map Some (tl text) @ [None])))"

fun spec_right_trim :: "jsstring \<Rightarrow> jsstring" where
  "spec_right_trim [] = []"
| "spec_right_trim (c # cs) =
     (if list_all is_whitespace (c # cs) then [] else c # spec_right_trim cs)"

text \<open>The events that are a fetched block.\<close>

definition is_block :: "event \<Rightarrow> bool" where
  "is_block e = (case e of Answer (Resolved (Some transactions)) \<Rightarrow> True | _ \<Rightarrow> False)"

section \<open>Small examples\<close>

text \<open>
  A toy instance of the library functions, and a small bag: a manifest \<open>M0\<close> that declares
  four sources (one to be found by hash, one inline and matching, one with an empty inline
  content, one inline and not matching), a manifest \<open>M_two\<close> with two compilation targets
  and no sources, a manifest \<open>M_empty\<close> with one compilation target, an empty \<open>abi\<close> array
  and an empty \<open>sources\<close> object, a source file, and an archive holding the manifest \<open>M0\<close>
  and the source file. The toy parser reads the texts \<open>M\<close>, \<open>T\<close> and \<open>E\<close> as the three
  manifests.
  The toy hash of a string is the string after a \<open>#\<close>.
  Further: a manifest \<open>M_proto\<close> that declares a source under the path \<open>__proto__\<close>, with
  an empty inline content, beside an ordinary one; a manifest \<open>M_arr\<close> whose declared
  digest is an array holding the hash; a build-info bundle with one contract, whose
  metadata is not recognized; a bag with a further source file; and an archive that holds
  the manifest \<open>M0\<close>, the source file and an archive that cannot be read. The toy parser
  reads the texts \<open>P\<close> and \<open>A\<close> as the two manifests, and the text
  \<open>"hh-sol-build-info-1"\<close> as the bundle.
\<close>

definition toy_hash :: "jsval \<Rightarrow> jsstring option" where
  "toy_hash v = (case v of JStr s \<Rightarrow> Some (of_char CHR ''#'' # s) | _ \<Rightarrow> None)"

definition M0 :: jsval where
  "M0 = JObj
     [(js ''language'', JStr (js ''Solidity'')),
      (js ''settings'', JObj [(js ''compilationTarget'', JObj [(js ''a.sol'', JStr (js ''A''))])]),
      (js ''version'', JNum (Finite 1)),
      (js ''output'', JObj [(js ''abi'', JArr []), (js ''userdoc'', JObj []), (js ''devdoc'', JObj [])]),
      (js ''sources'', JObj
         [(js ''a.sol'', JObj [(js ''keccak256'', JStr (js ''#a'' @ [LF])), (js ''urls'', JArr [])]),
          (js ''b.sol'', JObj [(js ''content'', JStr (js ''b'')), (js ''keccak256'', JStr (js ''#b''))]),
          (js ''c.sol'', JObj [(js ''content'', JStr []), (js ''keccak256'', JStr (js ''#c'')),
                               (js ''urls'', JArr [])]),
          (js ''d.sol'', JObj [(js ''content'', JStr (js ''d'')), (js ''keccak256'', JStr (js ''#x''))])])]"

definition M_two :: jsval where
  "M_two = JObj
     [(js ''language'', JStr (js ''Solidity'')),
      (js ''settings'', JObj [(js ''compilationTarget'',
          JObj [(js ''a.sol'', JStr (js ''A'')), (js ''b.sol'', JStr (js ''B''))])]),
      (js ''version'', JNum (Finite 1)),
      (js ''output'', JObj [(js ''abi'', JArr []), (js ''userdoc'', JObj []), (js ''devdoc'', JObj [])]),
      (js ''sources'', JObj [])]"

definition M_empty :: jsval where
  "M_empty = JObj
     [(js ''language'', JStr (js ''Solidity'')),
      (js ''settings'', JObj [(js ''compilationTarget'', JObj [(js ''a.sol'', JStr (js ''A''))])]),
      (js ''version'', JNum (Finite 1)),
      (js ''output'', JObj [(js ''abi'', JArr []), (js ''userdoc'', JObj []), (js ''devdoc'', JObj [])]),
      (js ''sources'', JObj [])]"

definition M_proto :: jsval where
  "M_proto = JObj
     [(js ''language'', JStr (js ''Solidity'')),
      (js ''settings'', JObj [(js ''compilationTarget'', JObj [(js ''e.sol'', JStr (js ''E''))])]),
      (js ''version'', JNum (Finite 1)),
      (js ''output'', JObj [(js ''abi'', JArr []), (js ''userdoc'', JObj []), (js ''devdoc'', JObj [])]),
      (js ''sources'', JObj
         [(js ''__proto__'', JObj [(js ''content'', JStr []), (js ''keccak256'', JStr (js ''#p'')),
                                   (js ''urls'', JArr [])]),
          (js ''e.sol'', JObj [(js ''content'', JStr (js ''e'')), (js ''keccak256'', JStr (js ''#e''))])])]"

definition M_arr :: jsval where
  "M_arr = JObj
     [(js ''language'', JStr (js ''Solidity'')),
      (js ''settings'', JObj [(js ''compilationTarget'', JObj [(js ''b.sol'', JStr (js ''B''))])]),
      (js ''version'', JNum (Finite 1)),
      (js ''output'', JObj [(js ''abi'', JArr []), (js ''userdoc'', JObj []), (js ''devdoc'', JObj [])]),
      (js ''sources'', JObj
         [(js ''b.sol'', JObj [(js ''content'', JStr (js ''b'')),
                               (js ''keccak256'', JArr [JStr (js ''#b'')])])])]"

definition bundle0 :: jsval where
  "bundle0 = JObj
     [(js ''input'', JObj [(js ''sources'', JObj [])]),
      (js ''output'', JObj [(js ''contracts'',
         JObj [(js ''c.sol'', JObj [(js ''C'', JObj [(js ''metadata'', JStr (js ''x''))])])])])]"

definition toy_parse :: "jsstring \<Rightarrow> jsval option" where
  "toy_parse s =
     (if s = js ''M'' then Some M0
      else if s = js ''T'' then Some M_two
      else if s = js ''E'' then Some M_empty
      else if s = js ''P'' then Some M_proto
      else if s = js ''A'' then Some M_arr
      else if s = 0x22 # js ''hh-sol-build-info-1'' @ [0x22] then Some bundle0
      else None)"

definition archive0 :: "8 word list" where
  "archive0 = [0x50, 0x4b, 0x03, 0x04]"

definition archive1 :: "8 word list" where
  "archive1 = [0x50, 0x4b, 0x03, 0x04, 0x01]"

definition archive_bad :: "8 word list" where
  "archive_bad = [0x50, 0x4b, 0x05, 0x06]"

definition E0 :: ext where
  "E0 = \<lparr>JSON_parse = toy_parse,
         Number_toString = (\<lambda>n. []),
         ToNumber = (\<lambda>s. NaN),
         keccak256 = toy_hash,
         keccak256_throws = (\<lambda>v. False),
         Buffer_toString = map ucast,
         JSZip_files = (\<lambda>b. if b = archive0
                            then Some [(js ''m.json'', [0x4D]), (js ''a.sol'', [0x61, 0x0D, 0x0A])]
                            else if b = archive1
                            then Some [(js ''m.json'', [0x4D]), (js ''a.sol'', [0x61, 0x0D, 0x0A]),
                                       (js ''inner.zip'', archive_bad)]
                            else None)\<rparr>"

definition files0 :: "PathBuffer list" where
  "files0 = [\<lparr>pb_path = js ''m.json'', pb_buffer = [0x4D]\<rparr>,
             \<lparr>pb_path = js ''a.sol'', pb_buffer = [0x61, 0x0D, 0x0A]\<rparr>]"

definition files_two :: "PathBuffer list" where
  "files_two = [\<lparr>pb_path = js ''m.json'', pb_buffer = [0x4D]\<rparr>,
                \<lparr>pb_path = js ''t.json'', pb_buffer = [0x54]\<rparr>]"

definition files_empty :: "PathBuffer list" where
  "files_empty = [\<lparr>pb_path = js ''e.json'', pb_buffer = [0x45]\<rparr>]"

definition files_zip :: "PathBuffer list" where
  "files_zip = [\<lparr>pb_path = js ''bag.zip'', pb_buffer = archive0\<rparr>]"

definition files_proto :: "PathBuffer list" where
  "files_proto = [\<lparr>pb_path = js ''p.json'', pb_buffer = [0x50]\<rparr>]"

definition files_arr :: "PathBuffer list" where
  "files_arr = [\<lparr>pb_path = js ''a.json'', pb_buffer = [0x41]\<rparr>]"

definition files_bundle :: "PathBuffer list" where
  "files_bundle =
     [\<lparr>pb_path = js ''build.json'',
       pb_buffer = [0x22, 0x68, 0x68, 0x2D, 0x73, 0x6F, 0x6C, 0x2D, 0x62, 0x75, 0x69, 0x6C, 0x64,
                    0x2D, 0x69, 0x6E, 0x66, 0x6F, 0x2D, 0x31, 0x22]\<rparr>]"

definition files_extra :: "PathBuffer list" where
  "files_extra = [\<lparr>pb_path = js ''m.json'', pb_buffer = [0x4D]\<rparr>,
                  \<lparr>pb_path = js ''a.sol'', pb_buffer = [0x61, 0x0D, 0x0A]\<rparr>,
                  \<lparr>pb_path = js ''x.sol'', pb_buffer = [0x78]\<rparr>]"

definition files_nested :: "PathBuffer list" where
  "files_nested = [\<lparr>pb_path = js ''outer.zip'', pb_buffer = archive1\<rparr>]"

definition files_unpacked :: "PathBuffer list" where
  "files_unpacked = [\<lparr>pb_path = js ''m.json'', pb_buffer = [0x4D]\<rparr>,
                     \<lparr>pb_path = js ''a.sol'', pb_buffer = [0x61, 0x0D, 0x0A]\<rparr>,
                     \<lparr>pb_path = js ''inner.zip'', pb_buffer = archive_bad\<rparr>]"

definition a_sol :: PathContent where
  "a_sol = \<lparr>pc_content = JStr [0x61, 0x0D, 0x0A], pc_path = js ''a.sol''\<rparr>"

text \<open>The contract \<open>checkFiles\<close> returns for \<open>M0\<close>.\<close>

definition C0 :: CheckedContract where
  "C0 = \<lparr>metadata = M0,
         solidity = [js ''a.sol'' \<mapsto> JStr [0x61, 0x0A], js ''b.sol'' \<mapsto> JStr (js ''b'')],
         missing = [js ''c.sol'' \<mapsto> \<lparr>ms_keccak256 = JStr (js ''#c''), ms_urls = JArr []\<rparr>],
         invalid = [js ''d.sol'' \<mapsto> \<lparr>expectedHash = JStr (js ''#x''),
                                       calculatedHash = Some (js ''#d''),
                                       msg = HASH_MISMATCH_MSG\<rparr>]\<rparr>"

definition default_env :: monitor_env where
  "default_env = \<lparr>env_BLOCK_PAUSE_FACTOR = None, env_BLOCK_PAUSE_UPPER_LIMIT = None,
                  env_BLOCK_PAUSE_LOWER_LIMIT = None, env_GET_BLOCK_PAUSE = None\<rparr>"

definition default_config :: monitor_config where
  "default_config = \<lparr>BLOCK_PAUSE_FACTOR = 1.1, BLOCK_PAUSE_UPPER_LIMIT = 30000,
                     BLOCK_PAUSE_LOWER_LIMIT = 500\<rparr>"

text \<open>The hash index of the source file and the reconciliation of \<open>M0\<close> with it.\<close>

definition byHash0 :: "jsval \<rightharpoonup> PathContent" where
  "byHash0 = fold (store_variation E0)
     (map (\<lambda>content. \<lparr>pc_content = JStr content, pc_path = js ''a.sol''\<rparr>)
        (variations_of [0x61, 0x0D, 0x0A])) Map.empty"

definition r0 :: rearranged where
  "r0 = \<lparr>foundSources = solidity C0, missingSources = missing C0, invalidSources = invalid C0,
         metadata2provided = [(js ''a.sol'', js ''a.sol'')]\<rparr>"

definition c_sol :: jsval where
  "c_sol = JObj [(js ''content'', JStr []), (js ''keccak256'', JStr (js ''#c'')),
                 (js ''urls'', JArr [])]"

text \<open>The contracts \<open>checkFiles\<close> returns for \<open>M_proto\<close> and for \<open>M_arr\<close>.\<close>

definition C_proto :: CheckedContract where
  "C_proto = \<lparr>metadata = M_proto,
              solidity = [js ''e.sol'' \<mapsto> JStr (js ''e'')],
              missing = Map.empty,
              invalid = Map.empty\<rparr>"

definition C_arr :: CheckedContract where
  "C_arr = \<lparr>metadata = M_arr,
            solidity = [js ''b.sol'' \<mapsto> JStr (js ''b'')],
            missing = Map.empty,
            invalid = Map.empty\<rparr>"

text \<open>
  An environment that sets the lower limit of the pause above the default upper limit, and
  the events of a run of the monitor. Further, collaborators of the transaction loop of
  which \<open>getContractAddress\<close> throws on every transaction but those with the nonce 0, and
  a block of two contract creations, the second with the nonce 1.
\<close>

definition toy_getContractAddress :: "Transaction \<Rightarrow> jsstring option" where
  "toy_getContractAddress tx = (if tx_nonce tx = 0 then Some (js ''0xA'') else None)"

definition toy_isVerified :: "jsstring \<Rightarrow> bool option" where
  "toy_isVerified address = Some False"

definition creations :: "Transaction list" where
  "creations =
     [\<lparr>tx_to = None, tx_from = js ''0x1'', tx_nonce = 0, tx_input = js ''0x60''\<rparr>,
      \<lparr>tx_to = None, tx_from = js ''0x1'', tx_nonce = 1, tx_input = js ''0x61''\<rparr>]"

definition misconfigured_env :: monitor_env where
  "misconfigured_env = \<lparr>env_BLOCK_PAUSE_FACTOR = None, env_BLOCK_PAUSE_UPPER_LIMIT = None,
                        env_BLOCK_PAUSE_LOWER_LIMIT = Some 40000, env_GET_BLOCK_PAUSE = None\<rparr>"

definition misconfigured_config :: monitor_config where
  "misconfigured_config = \<lparr>BLOCK_PAUSE_FACTOR = 1.1, BLOCK_PAUSE_UPPER_LIMIT = 30000,
                           BLOCK_PAUSE_LOWER_LIMIT = 40000\<rparr>"

definition block_event :: event where
  "block_event = Answer (Resolved (Some []))"

definition example_run :: "event list" where
  "example_run = [block_event, Answer (Resolved None), Answer Rejected, block_event, Stop,
                  block_event, block_event]"

section \<open>Objects and their keys\<close>

lemma own_properties_keys: "fst ` set (own_properties kvs) = fst ` set kvs"
proof (induction kvs rule: own_properties.induct)
  case 1
  then show ?case by simp
next
  case (2 k v kvs)
  have "fst ` set (filter (\<lambda>kv. fst kv \<noteq> k) kvs) = fst ` set kvs - {k}"
    by auto
  with 2 show ?case by auto
qed

lemma own_properties_distinct: "distinct (map fst (own_properties kvs))"
proof (induction kvs rule: own_properties.induct)
  case 1
  then show ?case by simp
next
  case (2 k v kvs)
  have "k \<notin> fst ` set (filter (\<lambda>kv. fst kv \<noteq> k) kvs)"
    by auto
  then have "k \<notin> fst ` set (own_properties (filter (\<lambda>kv. fst kv \<noteq> k) kvs))"
    unfolding own_properties_keys .
  with 2 show ?case by simp
qed

lemma map_of_filter_neq:
  "k' \<noteq> k \<Longrightarrow> map_of (filter (\<lambda>kv. fst kv \<noteq> k) kvs) k' = map_of kvs k'"
  by (induction kvs) auto

lemma own_properties_map_of: "map_of (own_properties kvs) = map_of kvs"
proof (induction kvs rule: own_properties.induct)
  case 1
  then show ?case by simp
next
  case (2 k v kvs)
  show ?case
  proof
    fix k'
    show "map_of (own_properties ((k, v) # kvs)) k' = map_of ((k, v) # kvs) k'"
      using 2 by (simp add: map_of_filter_neq)
  qed
qed

lemma index_str_length: "10 \<le> n \<Longrightarrow> 2 \<le> length (index_str n)"
  by (subst index_str.simps, subst index_str.simps) simp

lemma digit_inj:
  assumes "(of_nat (48 + a) :: 16 word) = of_nat (48 + b)" "a < 10" "b < 10"
  shows "a = b"
proof -
  have "take_bit 16 (48 + a) = take_bit 16 (48 + b)"
    using assms(1) unfolding word_of_nat_eq_iff by simp
  moreover have "take_bit 16 (48 + a) = 48 + a" "take_bit 16 (48 + b) = 48 + b"
    using assms(2,3) by (simp_all add: take_bit_nat_eq_self)
  ultimately show ?thesis by simp
qed

lemma index_str_inj: "index_str n = index_str m \<Longrightarrow> n = m"
proof (induction n arbitrary: m rule: index_str.induct)
  case (1 n)
  show ?case
  proof (cases "n < 10")
    case True
    then have n: "index_str n = [of_nat (48 + n)]"
      by (subst index_str.simps) simp
    have "m < 10"
    proof (rule ccontr)
      assume "\<not> m < 10"
      then have "2 \<le> length (index_str m)" by (simp add: index_str_length)
      with n "1.prems" show False by simp
    qed
    then have "index_str m = [of_nat (48 + m)]"
      by (subst index_str.simps) simp
    with n "1.prems" have "(of_nat (48 + n) :: 16 word) = of_nat (48 + m)"
      by (simp del: of_nat_add)
    then show ?thesis using True \<open>m < 10\<close> by (rule digit_inj)
  next
    case False
    then have n: "index_str n = index_str (n div 10) @ [of_nat (48 + n mod 10)]"
      by (subst index_str.simps) simp
    have m10: "\<not> m < 10"
    proof
      assume "m < 10"
      then have "index_str m = [of_nat (48 + m)]"
        by (subst index_str.simps) simp
      moreover from False have "2 \<le> length (index_str n)" by (simp add: index_str_length)
      ultimately show False using "1.prems" by simp
    qed
    then have m: "index_str m = index_str (m div 10) @ [of_nat (48 + m mod 10)]"
      by (subst index_str.simps) simp
    from n m "1.prems" have a: "index_str (n div 10) = index_str (m div 10)"
      and b: "(of_nat (48 + n mod 10) :: 16 word) = of_nat (48 + m mod 10)"
      by (simp_all del: of_nat_add)
    from "1.IH" [OF False a] have "n div 10 = m div 10" .
    moreover from b have "n mod 10 = m mod 10" by (rule digit_inj) simp_all
    ultimately show ?thesis by (metis div_mult_mod_eq)
  qed
qed

lemma entries_distinct: "distinct (map fst (entries v))"
proof (cases v)
  case (JArr xs)
  have "distinct (map index_str [0..<length xs])"
    by (simp add: distinct_map inj_on_def) (auto dest: index_str_inj)
  then show ?thesis using JArr by simp
next
  case (JStr s)
  have "distinct (map index_str [0..<length s])"
    by (simp add: distinct_map inj_on_def) (auto dest: index_str_inj)
  then show ?thesis using JStr by simp
next
  case (JObj kvs)
  then show ?thesis by (simp add: own_properties_distinct)
qed simp_all

lemma entries_JObj_keys: "fst ` set (entries (JObj kvs)) = fst ` set kvs"
  by (simp add: own_properties_keys)

lemma entries_JObj_get:
  "map_of (entries (JObj kvs)) k = Some v \<Longrightarrow> get (JObj kvs) k = v"
  by (simp add: own_properties_map_of)

section \<open>The variations of a source\<close>

lemma variations_of_unfold:
  "variations_of text =
     [text, trimEnd text, trimEnd text @ [LF], trimEnd text @ [CR, LF],
      text @ [LF], text @ [CR, LF],
      replace_lf_by_crlf text, trimEnd (replace_lf_by_crlf text),
      trimEnd (replace_lf_by_crlf text) @ [LF], trimEnd (replace_lf_by_crlf text) @ [CR, LF],
      replace_lf_by_crlf text @ [LF], replace_lf_by_crlf text @ [CR, LF],
      replace_crlf_by_lf text, trimEnd (replace_crlf_by_lf text),
      trimEnd (replace_crlf_by_lf text) @ [LF], trimEnd (replace_crlf_by_lf text) @ [CR, LF],
      replace_crlf_by_lf text @ [LF], replace_crlf_by_lf text @ [CR, LF]]"
  by (simp add: variations_of_def variations_inner_def CONTENT_VARIATORS_def ENDING_VARIATORS_def)

lemma lf_to_crlf_places:
  "before \<noteq> Some CR \<or> s = [] \<or> hd s \<noteq> LF \<Longrightarrow>
     replace_lf_by_crlf s =
       concat (map (\<lambda>(before, c). if c = LF \<and> before \<noteq> Some CR then [CR, LF] else [c])
                 (zip (before # map Some s) s))"
proof (induction s arbitrary: before rule: replace_lf_by_crlf.induct)
  case 1
  then show ?case by simp
next
  case (2 c)
  then show ?case by auto
next
  case (3 c d ds)
  have ne: "CR \<noteq> LF" by (simp add: CR_def LF_def)
  show ?case
  proof (cases "c = CR \<and> d = LF")
    case True
    with 3(1) [of "Some LF"] ne show ?thesis by simp
  next
    case False
    show ?thesis
    proof (cases "c = LF")
      case True
      with False 3(2) [of "Some LF"] 3(4) ne show ?thesis by simp
    next
      case nlf: False
      with False 3(3) [of "Some c"] show ?thesis by auto
    qed
  qed
qed

lemma replace_lf_by_crlf_spec: "replace_lf_by_crlf s = spec_lf_to_crlf s"
  unfolding spec_lf_to_crlf_def by (rule lf_to_crlf_places) simp

lemma crlf_to_lf_places_Cons:
  "c \<noteq> CR \<Longrightarrow>
     concat (map (\<lambda>(c, after). if c = CR \<and> after = Some LF then [] else [c])
               (zip (c # s) (map Some s @ [None])))
     = c # concat (map (\<lambda>(c, after). if c = CR \<and> after = Some LF then [] else [c])
               (zip s (map Some (tl s) @ [None])))"
  by (cases s) simp_all

lemma replace_crlf_by_lf_spec: "replace_crlf_by_lf s = spec_crlf_to_lf s"
  unfolding spec_crlf_to_lf_def
proof (induction s rule: replace_crlf_by_lf.induct)
  case 1
  then show ?case by simp
next
  case (2 c)
  then show ?case by simp
next
  case (3 c d ds)
  have ne: "LF \<noteq> CR" by (simp add: CR_def LF_def)
  show ?case
  proof (cases "c = CR \<and> d = LF")
    case True
    with 3(1) crlf_to_lf_places_Cons [OF ne, of ds] show ?thesis by simp
  next
    case False
    with 3(2) show ?thesis by auto
  qed
qed

lemma spec_right_trim_whitespace: "list_all is_whitespace s \<Longrightarrow> spec_right_trim s = []"
  by (cases s) simp_all

lemma trimEnd_spec: "trimEnd s = spec_right_trim s"
proof (induction s)
  case Nil
  then show ?case by (simp add: trimEnd_def)
next
  case (Cons c cs)
  show ?case
  proof (cases "list_all is_whitespace cs")
    case True
    then have "x \<in> set (rev cs) \<Longrightarrow> is_whitespace x" for x by (simp add: list_all_iff)
    then have "dropWhile is_whitespace (rev cs @ [c]) = dropWhile is_whitespace [c]"
      by (rule dropWhile_append2)
    with True show ?thesis
      by (simp add: trimEnd_def spec_right_trim_whitespace)
  next
    case False
    then obtain x where "x \<in> set (rev cs)" "\<not> is_whitespace x"
      by (auto simp: list_all_iff)
    then have "dropWhile is_whitespace (rev cs @ [c]) = dropWhile is_whitespace (rev cs) @ [c]"
      by (simp add: dropWhile_append1)
    with False Cons.IH show ?thesis by (simp add: trimEnd_def)
  qed
qed

text \<open>
  C5. For every text, \<open>generateVariations\<close> returns exactly 18 variants under the path
  of the source: the three content variators (identity; every LF, with the CR before it
  if there is one, replaced by CR LF; every CR LF replaced by LF), each followed by the
  six ending variators (identity; right-trim; right-trim then LF; right-trim then CR LF;
  append LF; append CR LF), content variator first and in this order. This is the
  Cartesian product of the two lists of variators, and the variators of the code are
  those the words describe.
\<close>

theorem generateVariations_eighteen:
  "generateVariations \<lparr>pc_content = JStr text, pc_path = p\<rparr> =
     Inr (map (\<lambda>content. \<lparr>pc_content = JStr content, pc_path = p\<rparr>)
       (concat (map (\<lambda>content.
                  [content, spec_right_trim content, spec_right_trim content @ [LF],
                   spec_right_trim content @ [CR, LF], content @ [LF], content @ [CR, LF]])
          [text, spec_lf_to_crlf text, spec_crlf_to_lf text])))
   \<and> map (\<lambda>contentVariator. contentVariator text) CONTENT_VARIATORS =
       [text, spec_lf_to_crlf text, spec_crlf_to_lf text]
   \<and> map (\<lambda>endingVariator. endingVariator text) ENDING_VARIATORS =
       [text, spec_right_trim text, spec_right_trim text @ [LF], spec_right_trim text @ [CR, LF],
        text @ [LF], text @ [CR, LF]]
   \<and> variations_of text =
       concat (map (\<lambda>contentVariator.
                 map (\<lambda>endingVariator. endingVariator (contentVariator text)) ENDING_VARIATORS)
               CONTENT_VARIATORS)
   \<and> length (variations_of text) = 18
   \<and> length CONTENT_VARIATORS = 3 \<and> length ENDING_VARIATORS = 6
   \<and> CR = 0x0D \<and> LF = 0x0A"
  by (simp add: generateVariations_def variations_of_unfold replace_lf_by_crlf_spec
      replace_crlf_by_lf_spec trimEnd_spec)
     (simp add: CONTENT_VARIATORS_def ENDING_VARIATORS_def replace_lf_by_crlf_spec
      replace_crlf_by_lf_spec trimEnd_spec CR_def LF_def)

theorem generateVariations_eighteen_witness:
  "generateVariations
     \<lparr>pc_content = JStr [0x61, 0x0A, 0x62, 0x0D, 0x0A, 0x20], pc_path = js ''a.sol''\<rparr> =
     Inr (map (\<lambda>content. \<lparr>pc_content = JStr content, pc_path = js ''a.sol''\<rparr>)
       [[0x61, 0x0A, 0x62, 0x0D, 0x0A, 0x20], [0x61, 0x0A, 0x62], [0x61, 0x0A, 0x62, 0x0A],
        [0x61, 0x0A, 0x62, 0x0D, 0x0A], [0x61, 0x0A, 0x62, 0x0D, 0x0A, 0x20, 0x0A],
        [0x61, 0x0A, 0x62, 0x0D, 0x0A, 0x20, 0x0D, 0x0A],
        [0x61, 0x0D, 0x0A, 0x62, 0x0D, 0x0A, 0x20], [0x61, 0x0D, 0x0A, 0x62],
        [0x61, 0x0D, 0x0A, 0x62, 0x0A], [0x61, 0x0D, 0x0A, 0x62, 0x0D, 0x0A],
        [0x61, 0x0D, 0x0A, 0x62, 0x0D, 0x0A, 0x20, 0x0A],
        [0x61, 0x0D, 0x0A, 0x62, 0x0D, 0x0A, 0x20, 0x0D, 0x0A],
        [0x61, 0x0A, 0x62, 0x0A, 0x20], [0x61, 0x0A, 0x62], [0x61, 0x0A, 0x62, 0x0A],
        [0x61, 0x0A, 0x62, 0x0D, 0x0A], [0x61, 0x0A, 0x62, 0x0A, 0x20, 0x0A],
        [0x61, 0x0A, 0x62, 0x0A, 0x20, 0x0D, 0x0A]])"
  using generateVariations_eighteen [of "[0x61, 0x0A, 0x62, 0x0D, 0x0A, 0x20]" "js ''a.sol''"]
  by (simp add: spec_lf_to_crlf_def spec_crlf_to_lf_def CR_def LF_def is_whitespace_def)

section \<open>Reconciliation\<close>

lemma ebind_Inr: "ebind r f = Inr y \<longleftrightarrow> (\<exists>x. r = Inr x \<and> f x = Inr y)"
  by (cases r) (simp_all add: ebind_def)

lemma dot_Inr: "dot v k = Inr x \<longleftrightarrow> v \<noteq> Undefined \<and> v \<noteq> JNull \<and> x = get v k"
  by (auto simp: dot_def)

lemma rearrange_source_cases:
  assumes "rearrange_source E byHash r (k, info) = Inr r'"
  obtains
    (mismatch) "truthy (get info (js ''content''))"
      "\<not> loose_eq E (keccak256 E (get info (js ''content''))) (get info (js ''keccak256''))"
      "r' = r\<lparr>invalidSources := set_property k
               \<lparr>expectedHash = get info (js ''keccak256''),
                calculatedHash = keccak256 E (get info (js ''content'')),
                msg = HASH_MISMATCH_MSG\<rparr> (invalidSources r)\<rparr>"
  | (inline) "truthy (get info (js ''content''))"
      "loose_eq E (keccak256 E (get info (js ''content''))) (get info (js ''keccak256''))"
      "r' = r\<lparr>foundSources := set_property k (get info (js ''content'')) (foundSources r)\<rparr>"
  | (indexed) pathContent where "\<not> truthy (get info (js ''content''))"
      "byHash (get info (js ''keccak256'')) = Some pathContent" "truthy (pc_content pathContent)"
      "r' = r\<lparr>metadata2provided :=
                 set_listed_property k (pc_path pathContent) (metadata2provided r),
               foundSources := set_property k (pc_content pathContent) (foundSources r)\<rparr>"
  | (empty_hit) pathContent where "\<not> truthy (get info (js ''content''))"
      "byHash (get info (js ''keccak256'')) = Some pathContent" "\<not> truthy (pc_content pathContent)"
      "r' = r\<lparr>metadata2provided :=
                 set_listed_property k (pc_path pathContent) (metadata2provided r),
               missingSources := set_property k
                 \<lparr>ms_keccak256 = get info (js ''keccak256''),
                  ms_urls = get info (js ''urls'')\<rparr> (missingSources r)\<rparr>"
  | (miss) "\<not> truthy (get info (js ''content''))"
      "byHash (get info (js ''keccak256'')) = None"
      "r' = r\<lparr>missingSources := set_property k
                 \<lparr>ms_keccak256 = get info (js ''keccak256''),
                  ms_urls = get info (js ''urls'')\<rparr> (missingSources r)\<rparr>"
  using assms
  by (auto simp: rearrange_source_def ebind_Inr dot_Inr Let_def split: if_splits option.splits)

text \<open>
  Each iteration puts its key into exactly one of the three objects, unless the key is
  \<open>__proto__\<close>, which it puts into none.
\<close>

lemma dom_set_property:
  "dom (set_property k v obj) = dom obj \<union> ({k} - {js ''__proto__''})"
  by (auto simp: set_property_def)

lemma rearrange_source_partitioned:
  assumes "rearrange_source E byHash r (k, info) = Inr r'" and "k \<notin> K" and "partitioned r K"
  shows "partitioned r' (K \<union> ({k} - {js ''__proto__''}))"
proof -
  from assms(2,3) have d: "k \<notin> dom (foundSources r)" "k \<notin> dom (missingSources r)"
    "k \<notin> dom (invalidSources r)"
    and u: "dom (foundSources r) \<union> dom (missingSources r) \<union> dom (invalidSources r) = K"
    and i: "dom (foundSources r) \<inter> dom (missingSources r) = {}"
      "dom (foundSources r) \<inter> dom (invalidSources r) = {}"
      "dom (missingSources r) \<inter> dom (invalidSources r) = {}"
    unfolding partitioned_def by blast+
  from assms(1) show ?thesis
  proof (cases rule: rearrange_source_cases)
    case mismatch
    show ?thesis unfolding mismatch(3) partitioned_def using d u i
      by (simp add: dom_set_property) blast
  next
    case inline
    show ?thesis unfolding inline(3) partitioned_def using d u i
      by (simp add: dom_set_property) blast
  next
    case (indexed pathContent)
    show ?thesis unfolding indexed(4) partitioned_def using d u i
      by (simp add: dom_set_property) blast
  next
    case (empty_hit pathContent)
    show ?thesis unfolding empty_hit(4) partitioned_def using d u i
      by (simp add: dom_set_property) blast
  next
    case miss
    show ?thesis unfolding miss(3) partitioned_def using d u i
      by (simp add: dom_set_property) blast
  qed
qed

lemma fold_rearrange_partitioned:
  assumes "fold_err (rearrange_source E byHash) es r = Inr r'"
    and "distinct (map fst es)" and "fst ` set es \<inter> K = {}" and "partitioned r K"
  shows "partitioned r' (K \<union> (fst ` set es - {js ''__proto__''}))"
  using assms
proof (induction es arbitrary: r K)
  case Nil
  then show ?case by simp
next
  case (Cons e es)
  obtain k info where e: "e = (k, info)" by (cases e)
  from Cons.prems(1) obtain r1 where
    step: "rearrange_source E byHash r (k, info) = Inr r1"
    and rest: "fold_err (rearrange_source E byHash) es r1 = Inr r'"
    by (auto simp: e ebind_Inr)
  from Cons.prems(3) have "k \<notin> K" by (auto simp: e)
  with step have p1: "partitioned r1 (K \<union> ({k} - {js ''__proto__''}))"
    using Cons.prems(4) by (rule rearrange_source_partitioned)
  from Cons.prems(2,3) have "distinct (map fst es)"
    "fst ` set es \<inter> (K \<union> ({k} - {js ''__proto__''})) = {}"
    by (auto simp: e)
  from Cons.IH [OF rest this p1]
  have "partitioned r' (K \<union> ({k} - {js ''__proto__''}) \<union> (fst ` set es - {js ''__proto__''}))" .
  moreover have "K \<union> ({k} - {js ''__proto__''}) \<union> (fst ` set es - {js ''__proto__''})
      = K \<union> (fst ` set (e # es) - {js ''__proto__''})"
    by (auto simp: e)
  ultimately show ?case by simp
qed

lemma rearrangeSources_partitioned:
  assumes "rearrangeSources E M byHash = Inr r"
  shows "partitioned r (fst ` set (entries (get M (js ''sources''))) - {js ''__proto__''})"
proof -
  from assms have f: "fold_err (rearrange_source E byHash) (entries (get M (js ''sources'')))
      \<lparr>foundSources = Map.empty, missingSources = Map.empty,
       invalidSources = Map.empty, metadata2provided = []\<rparr> = Inr r"
    by (auto simp: rearrangeSources_def ebind_Inr dot_Inr)
  have "partitioned \<lparr>foundSources = Map.empty, missingSources = Map.empty,
       invalidSources = Map.empty, metadata2provided = []\<rparr> {}"
    by (simp add: partitioned_def)
  from fold_rearrange_partitioned [OF f entries_distinct _ this] show ?thesis by simp
qed

lemma rearrange_source_found:
  assumes "rearrange_source E byHash r (k, info) = Inr r'" and "foundSources r' p = Some c"
  shows "foundSources r p = Some c \<or> (p = k \<and> verified_by E byHash info c)"
  using assms(1)
proof (cases rule: rearrange_source_cases)
  case mismatch
  with assms(2) show ?thesis by simp
next
  case inline
  with assms(2) show ?thesis by (auto simp: verified_by_def set_property_def split: if_splits)
next
  case (indexed pathContent)
  with assms(2) show ?thesis by (auto simp: verified_by_def set_property_def split: if_splits)
next
  case (empty_hit pathContent)
  with assms(2) show ?thesis by simp
next
  case miss
  with assms(2) show ?thesis by simp
qed

lemma fold_rearrange_found:
  assumes "fold_err (rearrange_source E byHash) es r = Inr r'" and "foundSources r' p = Some c"
  shows "foundSources r p = Some c \<or> (\<exists>info. (p, info) \<in> set es \<and> verified_by E byHash info c)"
  using assms
proof (induction es arbitrary: r)
  case Nil
  then show ?case by simp
next
  case (Cons e es)
  obtain k info where e: "e = (k, info)" by (cases e)
  from Cons.prems(1) obtain r1 where
    step: "rearrange_source E byHash r (k, info) = Inr r1"
    and rest: "fold_err (rearrange_source E byHash) es r1 = Inr r'"
    by (auto simp: e ebind_Inr)
  from Cons.IH [OF rest Cons.prems(2)] show ?case
  proof
    assume "foundSources r1 p = Some c"
    with step have "foundSources r p = Some c \<or> (p = k \<and> verified_by E byHash info c)"
      by (rule rearrange_source_found)
    then show ?thesis by (auto simp: e)
  next
    assume "\<exists>info. (p, info) \<in> set es \<and> verified_by E byHash info c"
    then show ?thesis by auto
  qed
qed

lemma rearrangeSources_found:
  assumes "rearrangeSources E M byHash = Inr r" and "foundSources r p = Some c"
  shows "\<exists>info. map_of (entries (get M (js ''sources''))) p = Some info \<and> verified_by E byHash info c"
proof -
  from assms(1) have f: "fold_err (rearrange_source E byHash) (entries (get M (js ''sources'')))
      \<lparr>foundSources = Map.empty, missingSources = Map.empty,
       invalidSources = Map.empty, metadata2provided = []\<rparr> = Inr r"
    by (auto simp: rearrangeSources_def ebind_Inr dot_Inr)
  from fold_rearrange_found [OF f assms(2)] obtain info where
    "(p, info) \<in> set (entries (get M (js ''sources'')))" "verified_by E byHash info c"
    by auto
  with entries_distinct show ?thesis by (auto intro: map_of_is_SomeI)
qed

lemma fold_store_variation:
  assumes "indexed_from E S byHash" and "src \<in> S" and "pc_content src = JStr s"
    and "set vs \<subseteq> set (variations_of s)"
  shows "indexed_from E S
           (fold (store_variation E)
              (map (\<lambda>content. \<lparr>pc_content = JStr content, pc_path = pc_path src\<rparr>) vs) byHash)"
  using assms(1,4)
proof (induction vs arbitrary: byHash)
  case Nil
  then show ?case by simp
next
  case (Cons v vs)
  have "indexed_from E S
          (store_variation E \<lparr>pc_content = JStr v, pc_path = pc_path src\<rparr> byHash)"
    unfolding indexed_from_def
  proof (intro allI impI)
    fix h pathContent
    assume h: "store_variation E \<lparr>pc_content = JStr v, pc_path = pc_path src\<rparr> byHash h
                 = Some pathContent"
    show "\<exists>src s v. src \<in> S \<and> pc_content src = JStr s \<and> v \<in> set (variations_of s) \<and>
             pathContent = \<lparr>pc_content = JStr v, pc_path = pc_path src\<rparr> \<and>
             h = hash_value (keccak256 E (JStr v))"
    proof (cases "h = hash_value (keccak256 E (JStr v))")
      case True
      with h have "pathContent = \<lparr>pc_content = JStr v, pc_path = pc_path src\<rparr>"
        by (simp add: store_variation_def)
      with True assms(2,3) Cons.prems(2) show ?thesis by auto
    next
      case False
      with h have "byHash h = Some pathContent" by (simp add: store_variation_def)
      with Cons.prems(1) show ?thesis by (simp add: indexed_from_def)
    qed
  qed
  moreover from Cons.prems(2) have "set vs \<subseteq> set (variations_of s)" by simp
  ultimately show ?case using Cons.IH by simp
qed

lemma fold_storeByHash_step:
  assumes "fold_err (storeByHash_step E) files byHash = Inr byHash'"
    and "indexed_from E S byHash" and "set files \<subseteq> S"
  shows "indexed_from E S byHash'"
  using assms
proof (induction files arbitrary: byHash)
  case Nil
  then show ?case by simp
next
  case (Cons f fs)
  from Cons.prems(1) obtain m where
    step: "storeByHash_step E byHash f = Inr m"
    and rest: "fold_err (storeByHash_step E) fs m = Inr byHash'"
    by (auto simp: ebind_Inr)
  from step obtain s where s: "pc_content f = JStr s"
    and m: "m = fold (store_variation E)
                  (map (\<lambda>content. \<lparr>pc_content = JStr content, pc_path = pc_path f\<rparr>)
                     (variations_of s)) byHash"
    by (auto simp: storeByHash_step_def generateVariations_def ebind_Inr
        split: jsval.splits if_splits)
  from Cons.prems(3) have "f \<in> S" by simp
  then have "indexed_from E S m"
    unfolding m using Cons.prems(2) s by (simp add: fold_store_variation)
  moreover from Cons.prems(3) have "set fs \<subseteq> S" by simp
  ultimately show ?case using rest by (simp add: Cons.IH)
qed

lemma storeByHash_indexed_from:
  assumes "storeByHash E files = Inr byHash"
  shows "indexed_from E (set files) byHash"
proof -
  have "indexed_from E (set files) Map.empty" by (simp add: indexed_from_def)
  with assms show ?thesis
    unfolding storeByHash_def by (rule fold_storeByHash_step) simp
qed

section \<open>The contracts of checkFiles\<close>

lemma check_metadata_Inr:
  "check_metadata E byHash acc M = Inr acc' \<longleftrightarrow>
     (\<exists>r. rearrangeSources E M byHash = Inr r \<and>
          acc' = (fst acc @ [\<lparr>metadata = M, solidity = foundSources r,
                               missing = missingSources r, invalid = invalidSources r\<rparr>],
                  snd acc @ map snd (metadata2provided r)))"
  by (auto simp: check_metadata_def ebind_Inr Let_def)

lemma fold_check_metadata:
  assumes "fold_err (check_metadata E byHash) mds acc = Inr (cs, used)"
  shows "map metadata cs = map metadata (fst acc) @ mds \<and>
         (\<forall>C \<in> set cs. C \<in> set (fst acc) \<or>
            (\<exists>r. rearrangeSources E (metadata C) byHash = Inr r \<and> solidity C = foundSources r \<and>
                 missing C = missingSources r \<and> invalid C = invalidSources r))"
  using assms
proof (induction mds arbitrary: acc)
  case Nil
  then show ?case by simp
next
  case (Cons M mds)
  from Cons.prems obtain r where r: "rearrangeSources E M byHash = Inr r"
    and rest: "fold_err (check_metadata E byHash) mds
                 (fst acc @ [\<lparr>metadata = M, solidity = foundSources r,
                               missing = missingSources r, invalid = invalidSources r\<rparr>],
                  snd acc @ map snd (metadata2provided r)) = Inr (cs, used)"
    by (auto simp: check_metadata_Inr ebind_Inr)
  from Cons.IH [OF rest] r show ?case by auto
qed

lemma checkFiles_Inr:
  assumes "outcome (checkFiles E files unused) = Inr contracts"
  obtains files' srcs byHash used where
    "unzipFiles E files = (files', None)"
    "splitFiles E (parse_files E files') = Inr (map metadata contracts, srcs)"
    "storeByHash E srcs = Inr byHash"
    "fold_err (check_metadata E byHash) (map metadata contracts) ([], []) = Inr (contracts, used)"
    "files_after (checkFiles E files unused) = files'"
proof -
  obtain files' e where u: "unzipFiles E files = (files', e)" by (cases "unzipFiles E files")
  with assms have e: "e = None" by (cases e) (simp_all add: checkFiles_def)
  from assms u e obtain mds srcs where s: "splitFiles E (parse_files E files') = Inr (mds, srcs)"
    by (cases "splitFiles E (parse_files E files')") (auto simp: checkFiles_def)
  from assms u e s obtain byHash where b: "storeByHash E srcs = Inr byHash"
    by (cases "storeByHash E srcs") (auto simp: checkFiles_def)
  from assms u e s b obtain used where
    f: "fold_err (check_metadata E byHash) mds ([], []) = Inr (contracts, used)"
    by (cases "fold_err (check_metadata E byHash) mds ([], [])") (auto simp: checkFiles_def)
  from fold_check_metadata [OF f] have m: "map metadata contracts = mds" by simp
  have "files_after (checkFiles E files unused) = files'"
    using u e s b f by (simp add: checkFiles_def)
  with u e s b f m that show thesis by simp
qed

lemma checkFiles_contract:
  assumes "outcome (checkFiles E files unused) = Inr contracts" and "C \<in> set contracts"
  obtains files' srcs byHash r where
    "unzipFiles E files = (files', None)"
    "splitFiles E (parse_files E files') = Inr (map metadata contracts, srcs)"
    "storeByHash E srcs = Inr byHash"
    "rearrangeSources E (metadata C) byHash = Inr r"
    "solidity C = foundSources r" "missing C = missingSources r" "invalid C = invalidSources r"
proof -
  from assms(1) obtain files' srcs byHash used where
    a: "unzipFiles E files = (files', None)"
      "splitFiles E (parse_files E files') = Inr (map metadata contracts, srcs)"
      "storeByHash E srcs = Inr byHash"
    and f: "fold_err (check_metadata E byHash) (map metadata contracts) ([], []) = Inr (contracts, used)"
    by (rule checkFiles_Inr)
  from fold_check_metadata [OF f] assms(2) obtain r where
    "rearrangeSources E (metadata C) byHash = Inr r" "solidity C = foundSources r"
    "missing C = missingSources r" "invalid C = invalidSources r"
    by auto
  with a that show thesis by blast
qed

text \<open>
  When \<open>checkFiles\<close> succeeds, each contract it returns partitions the sources its
  manifest declares under a path other than \<open>__proto__\<close>: the keys of found
  (\<open>solidity\<close>), \<open>missing\<close> and \<open>invalid\<close> together are these paths, and no key is in
  two of them. The contracts are, in order, those of the manifests \<open>splitFiles\<close>
  returned.
\<close>

lemma checkFiles_partitions_ordinary_sources:
  assumes "outcome (checkFiles E files unused) = Inr contracts" and "C \<in> set contracts"
  shows "dom (solidity C) \<union> dom (missing C) \<union> dom (invalid C)
           = fst ` set (entries (get (metadata C) (js ''sources''))) - {js ''__proto__''} \<and>
         dom (solidity C) \<inter> dom (missing C) = {} \<and>
         dom (solidity C) \<inter> dom (invalid C) = {} \<and>
         dom (missing C) \<inter> dom (invalid C) = {} \<and>
         (\<exists>files' srcs. unzipFiles E files = (files', None) \<and>
            splitFiles E (parse_files E files') = Inr (map metadata contracts, srcs))"
proof -
  from assms obtain files' srcs byHash r where
    "unzipFiles E files = (files', None)"
    "splitFiles E (parse_files E files') = Inr (map metadata contracts, srcs)"
    and r: "rearrangeSources E (metadata C) byHash = Inr r" "solidity C = foundSources r"
    "missing C = missingSources r" "invalid C = invalidSources r"
    by (rule checkFiles_contract)
  then have "\<exists>files' srcs. unzipFiles E files = (files', None) \<and>
            splitFiles E (parse_files E files') = Inr (map metadata contracts, srcs)"
    by blast
  with rearrangeSources_partitioned [OF r(1)] r(2-4) show ?thesis
    by (simp add: partitioned_def)
qed

lemma loose_eq_hash_value: "loose_eq E h (hash_value h)"
  by (cases h) (simp_all add: hash_value_def)

lemma loose_eq_JStr: "loose_eq E h (JStr d) \<longleftrightarrow> h = Some d"
  by (cases h) auto

lemma hash_value_JStr: "hash_value h = JStr d \<longleftrightarrow> h = Some d"
  by (cases h) (auto simp: hash_value_def)

text \<open>
  C4, as amended. When \<open>checkFiles\<close> succeeds, every key of found maps to a content
  whose keccak256 is the digest the manifest declares for that key whenever that digest is
  a string, the type the code gives it; whatever the declared digest is, the comparison
  \<open>==\<close> takes the hash for it. The content is either the manifest's inline content,
  whose computed hash passed that comparison, or a variation of a candidate source that
  the hash index held under exactly the declared digest.
\<close>

theorem found_sources_hash_to_declared_digest:
  assumes "outcome (checkFiles E files unused) = Inr contracts" and "C \<in> set contracts"
    and "solidity C p = Some c"
  shows "\<exists>info. map_of (entries (get (metadata C) (js ''sources''))) p = Some info \<and>
           loose_eq E (keccak256 E c) (get info (js ''keccak256'')) \<and>
           (\<forall>d. get info (js ''keccak256'') = JStr d \<longrightarrow> keccak256 E c = Some d) \<and>
           (truthy (get info (js ''content'')) \<and> c = get info (js ''content'') \<or>
            \<not> truthy (get info (js ''content'')) \<and>
            (\<exists>files' srcs src s v.
               unzipFiles E files = (files', None) \<and>
               splitFiles E (parse_files E files') = Inr (map metadata contracts, srcs) \<and>
               src \<in> set srcs \<and> pc_content src = JStr s \<and> v \<in> set (variations_of s) \<and>
               c = JStr v \<and> hash_value (keccak256 E (JStr v)) = get info (js ''keccak256'')))"
proof -
  from assms(1,2) obtain files' srcs byHash r where
    u: "unzipFiles E files = (files', None)"
    and s: "splitFiles E (parse_files E files') = Inr (map metadata contracts, srcs)"
    and b: "storeByHash E srcs = Inr byHash"
    and r: "rearrangeSources E (metadata C) byHash = Inr r"
    and f: "solidity C = foundSources r"
    by (rule checkFiles_contract)
  from rearrangeSources_found [OF r] assms(3) f obtain info where
    info: "map_of (entries (get (metadata C) (js ''sources''))) p = Some info"
    and v: "verified_by E byHash info c"
    by auto
  from v show ?thesis unfolding verified_by_def
  proof (elim disjE conjE exE)
    assume "truthy (get info (js ''content''))" "c = get info (js ''content'')"
      "loose_eq E (keccak256 E c) (get info (js ''keccak256''))"
    with info show ?thesis by (auto simp: loose_eq_JStr)
  next
    fix pathContent
    assume n: "\<not> truthy (get info (js ''content''))"
      and h: "byHash (get info (js ''keccak256'')) = Some pathContent"
      and c: "pc_content pathContent = c"
    from storeByHash_indexed_from [OF b] h obtain src s v where
      src: "src \<in> set srcs" "pc_content src = JStr s" "v \<in> set (variations_of s)"
      and pc: "pathContent = \<lparr>pc_content = JStr v, pc_path = pc_path src\<rparr>"
      and d: "get info (js ''keccak256'') = hash_value (keccak256 E (JStr v))"
      unfolding indexed_from_def by blast
    from pc c have cv: "c = JStr v" by simp
    have "loose_eq E (keccak256 E c) (get info (js ''keccak256''))"
      unfolding d cv by (rule loose_eq_hash_value)
    moreover have "\<forall>x. get info (js ''keccak256'') = JStr x \<longrightarrow> keccak256 E c = Some x"
      unfolding d cv by (simp add: hash_value_JStr)
    ultimately show ?thesis using info n u s src cv d by auto
  qed
qed

lemma fold_err_append:
  "fold_err f (xs @ ys) s = ebind (fold_err f xs s) (fold_err f ys)"
  by (induction xs arbitrary: s) (auto simp: ebind_def split: sum.splits)

lemma rearrange_source_other:
  assumes "rearrange_source E byHash r (k, info) = Inr r'" and "p \<noteq> k"
  shows "foundSources r' p = foundSources r p \<and> missingSources r' p = missingSources r p \<and>
         invalidSources r' p = invalidSources r p"
  using assms(1) by (cases rule: rearrange_source_cases) (simp_all add: assms(2) set_property_def)

lemma fold_rearrange_other:
  assumes "fold_err (rearrange_source E byHash) es r = Inr r'" and "p \<notin> fst ` set es"
  shows "foundSources r' p = foundSources r p \<and> missingSources r' p = missingSources r p \<and>
         invalidSources r' p = invalidSources r p"
  using assms
proof (induction es arbitrary: r)
  case Nil
  then show ?case by simp
next
  case (Cons e es)
  obtain k info where e: "e = (k, info)" by (cases e)
  from Cons.prems(1) obtain r1 where
    step: "rearrange_source E byHash r (k, info) = Inr r1"
    and rest: "fold_err (rearrange_source E byHash) es r1 = Inr r'"
    by (auto simp: e ebind_Inr)
  from Cons.prems(2) have "p \<noteq> k" "p \<notin> fst ` set es" by (auto simp: e)
  with rearrange_source_other [OF step] Cons.IH [OF rest] show ?case by simp
qed

text \<open>The partitions at a key are what the iteration for that key's entry made them.\<close>

lemma rearrangeSources_at:
  assumes "rearrangeSources E M byHash = Inr r"
    and "map_of (entries (get M (js ''sources''))) p = Some info"
  obtains r1 r2 where
    "foundSources r1 p = None" "missingSources r1 p = None" "invalidSources r1 p = None"
    "rearrange_source E byHash r1 (p, info) = Inr r2"
    "foundSources r p = foundSources r2 p" "missingSources r p = missingSources r2 p"
    "invalidSources r p = invalidSources r2 p"
proof -
  let ?es = "entries (get M (js ''sources''))"
  let ?r0 = "\<lparr>foundSources = Map.empty, missingSources = Map.empty,
       invalidSources = Map.empty, metadata2provided = []\<rparr>"
  from assms(1) have f: "fold_err (rearrange_source E byHash) ?es ?r0 = Inr r"
    by (auto simp: rearrangeSources_def ebind_Inr dot_Inr)
  from assms(2) have "(p, info) \<in> set ?es" by (rule map_of_SomeD)
  then obtain es1 es2 where es: "?es = es1 @ (p, info) # es2" by (auto dest: split_list)
  have "distinct (map fst ?es)" by (rule entries_distinct)
  then have d: "p \<notin> fst ` set es1" "p \<notin> fst ` set es2" unfolding es by auto
  from f obtain r1 r2 where
    f1: "fold_err (rearrange_source E byHash) es1 ?r0 = Inr r1"
    and step: "rearrange_source E byHash r1 (p, info) = Inr r2"
    and f2: "fold_err (rearrange_source E byHash) es2 r2 = Inr r"
    unfolding es by (auto simp: fold_err_append ebind_Inr)
  from fold_rearrange_other [OF f1 d(1)]
  have n: "foundSources r1 p = None" "missingSources r1 p = None" "invalidSources r1 p = None"
    by simp_all
  from fold_rearrange_other [OF f2 d(2)]
  have "foundSources r p = foundSources r2 p" "missingSources r p = missingSources r2 p"
    "invalidSources r p = invalidSources r2 p"
    by simp_all
  with n step show thesis by (rule that)
qed

text \<open>
  A manifest source whose inline \<open>content\<close> is the empty string is never placed in
  \<open>invalid\<close>; it is looked up by its declared digest in the hash index, and the iteration
  does for it what it does for the same entry without a \<open>content\<close> field. When its path
  is not \<open>__proto__\<close> and no variation of a supplied source hashes to the digest, it is
  placed in \<open>missing\<close> with the declared digest and urls (and not in found), and what is
  found for it is the content the index holds under the digest.
\<close>

lemma empty_inline_content_lookup:
  assumes "storeByHash E srcs = Inr byHash" and "rearrangeSources E M byHash = Inr r"
    and "map_of (entries (get M (js ''sources''))) p = Some info"
    and "get info (js ''content'') = JStr []" and "p \<noteq> js ''__proto__''"
  shows "invalidSources r p = None \<and>
         ((\<forall>src \<in> set srcs. \<forall>s. pc_content src = JStr s \<longrightarrow>
              (\<forall>v \<in> set (variations_of s).
                 hash_value (keccak256 E (JStr v)) \<noteq> get info (js ''keccak256'')))
            \<longrightarrow> foundSources r p = None \<and>
                missingSources r p = Some \<lparr>ms_keccak256 = get info (js ''keccak256''),
                                            ms_urls = get info (js ''urls'')\<rparr>) \<and>
         (\<forall>c. foundSources r p = Some c \<longrightarrow>
              (\<exists>pathContent. byHash (get info (js ''keccak256'')) = Some pathContent \<and>
                             pc_content pathContent = c)) \<and>
         (foundSources r p = None \<longrightarrow>
            missingSources r p = Some \<lparr>ms_keccak256 = get info (js ''keccak256''),
                                        ms_urls = get info (js ''urls'')\<rparr>) \<and>
         (\<forall>r0 info'. info' \<noteq> Undefined \<and> info' \<noteq> JNull \<and>
              get info' (js ''content'') = Undefined \<and>
              get info' (js ''keccak256'') = get info (js ''keccak256'') \<and>
              get info' (js ''urls'') = get info (js ''urls'')
            \<longrightarrow> rearrange_source E byHash r0 (p, info) = rearrange_source E byHash r0 (p, info'))"
proof -
  let ?d = "get info (js ''keccak256'')"
  from assms(2,3) obtain r1 r2 where
    n: "foundSources r1 p = None" "missingSources r1 p = None" "invalidSources r1 p = None"
    and step: "rearrange_source E byHash r1 (p, info) = Inr r2"
    and eq: "foundSources r p = foundSources r2 p" "missingSources r p = missingSources r2 p"
      "invalidSources r p = invalidSources r2 p"
    by (rule rearrangeSources_at)
  have falsy: "\<not> truthy (get info (js ''content''))" by (simp add: assms(4))
  have no_hit: "byHash ?d = None"
    if "\<forall>src \<in> set srcs. \<forall>s. pc_content src = JStr s \<longrightarrow>
          (\<forall>v \<in> set (variations_of s). hash_value (keccak256 E (JStr v)) \<noteq> ?d)"
  proof (rule ccontr)
    assume "byHash ?d \<noteq> None"
    then obtain pathContent where "byHash ?d = Some pathContent" by auto
    with storeByHash_indexed_from [OF assms(1)] obtain src s v where
      "src \<in> set srcs" "pc_content src = JStr s" "v \<in> set (variations_of s)"
      "?d = hash_value (keccak256 E (JStr v))"
      unfolding indexed_from_def by blast
    with that show False by auto
  qed
  note sp = set_property_def assms(5)
  have a: "invalidSources r p = None"
    using step falsy n eq by (cases rule: rearrange_source_cases) (simp_all add: sp)
  have b: "foundSources r p = None \<and>
           missingSources r p = Some \<lparr>ms_keccak256 = ?d, ms_urls = get info (js ''urls'')\<rparr>"
    if "byHash ?d = None"
    using step falsy n eq that by (cases rule: rearrange_source_cases) (simp_all add: sp)
  have c: "\<exists>pathContent. byHash ?d = Some pathContent \<and> pc_content pathContent = c"
    if "foundSources r p = Some c" for c
    using step falsy n eq that by (cases rule: rearrange_source_cases) (simp_all add: sp)
  have d: "missingSources r p = Some \<lparr>ms_keccak256 = ?d, ms_urls = get info (js ''urls'')\<rparr>"
    if "foundSources r p = None"
    using step falsy n eq that by (cases rule: rearrange_source_cases) (simp_all add: sp)
  have e: "rearrange_source E byHash r0 (p, info) = rearrange_source E byHash r0 (p, info')"
    if "info' \<noteq> Undefined \<and> info' \<noteq> JNull \<and> get info' (js ''content'') = Undefined \<and>
        get info' (js ''keccak256'') = ?d \<and> get info' (js ''urls'') = get info (js ''urls'')"
    for r0 info'
  proof -
    from step have "info \<noteq> Undefined" "info \<noteq> JNull"
      by (auto simp: rearrange_source_def ebind_Inr dot_Inr)
    with that assms(4) show ?thesis
      by (simp add: rearrange_source_def ebind_def dot_def Let_def split: option.splits)
  qed
  show ?thesis
  proof (intro conjI allI impI)
    show "invalidSources r p = None" by (rule a)
  next
    assume "\<forall>src \<in> set srcs. \<forall>s. pc_content src = JStr s \<longrightarrow>
          (\<forall>v \<in> set (variations_of s). hash_value (keccak256 E (JStr v)) \<noteq> ?d)"
    then have "byHash ?d = None" by (rule no_hit)
    then show "foundSources r p = None"
      and "missingSources r p = Some \<lparr>ms_keccak256 = ?d, ms_urls = get info (js ''urls'')\<rparr>"
      using b by simp_all
  next
    fix c assume "foundSources r p = Some c"
    then show "\<exists>pathContent. byHash ?d = Some pathContent \<and> pc_content pathContent = c"
      by (rule c)
  next
    assume "foundSources r p = None"
    then show "missingSources r p = Some \<lparr>ms_keccak256 = ?d, ms_urls = get info (js ''urls'')\<rparr>"
      by (rule d)
  next
    fix r0 info'
    assume "info' \<noteq> Undefined \<and> info' \<noteq> JNull \<and> get info' (js ''content'') = Undefined \<and>
        get info' (js ''keccak256'') = ?d \<and> get info' (js ''urls'') = get info (js ''urls'')"
    then show "rearrange_source E byHash r0 (p, info) = rearrange_source E byHash r0 (p, info')"
      by (rule e)
  qed
qed

section \<open>The examples, evaluated\<close>

lemmas example_defs = isMetadata_def opt_get_def js_def metadata_of_content_def
  extractMetadataFromString_def toy_parse_def nested_match_here_def NESTED_PREFIX_def
  NESTED_SUFFIX_def single_compilationTarget_def dot_def assertObjectSize_def
  HARDHAT_OUTPUT_FORMAT_def splitFiles_def parse_files_def splitFiles_step_def ebind_def
  M0_def M_two_def M_empty_def files0_def files_two_def files_zip_def files_empty_def toy_hash_def archive0_def CR_def LF_def
  set_property_def set_listed_property_def assign_property_def inherits_proto_accessor_def
  Object_assign_def M_proto_def M_arr_def bundle0_def files_proto_def
  files_arr_def files_bundle_def files_extra_def files_nested_def files_unpacked_def
  archive1_def archive_bad_def C_proto_def C_arr_def extractHardhatMetadataAndSources_def
  a_sol_def checkFiles_def unzipFiles_def isZip_def byte_at_def unzip_def storeByHash_def
  storeByHash_step_def generateVariations_def store_variation_def hash_value_def
  variations_of_unfold trimEnd_def is_whitespace_def check_metadata_def rearrangeSources_def
  rearrange_source_def HASH_MISMATCH_MSG_def C0_def Let_def byHash0_def r0_def c_sol_def

lemma E0_sel:
  "JSON_parse E0 = toy_parse" "keccak256 E0 = toy_hash" "Buffer_toString E0 = map ucast"
  "keccak256_throws E0 = (\<lambda>v. False)"
  "Number_toString E0 = (\<lambda>n. [])" "ToNumber E0 = (\<lambda>s. NaN)"
  "JSZip_files E0 = (\<lambda>b. if b = archive0
                            then Some [(js ''m.json'', [0x4D]), (js ''a.sol'', [0x61, 0x0D, 0x0A])]
                            else if b = archive1
                            then Some [(js ''m.json'', [0x4D]), (js ''a.sol'', [0x61, 0x0D, 0x0A]),
                                       (js ''inner.zip'', archive_bad)]
                            else None)"
  by (simp_all add: E0_def)

lemma checkFiles_files0:
  "checkFiles E0 files0 None = \<lparr>files_after = files0, unused_after = None, outcome = Inr [C0]\<rparr>"
  by (simp add: example_defs E0_sel)

lemma checkFiles_files_zip:
  "checkFiles E0 files_zip None = \<lparr>files_after = files0, unused_after = None, outcome = Inr [C0]\<rparr>"
  by (simp add: example_defs E0_sel)


lemma storeByHash_a_sol: "storeByHash E0 [a_sol] = Inr byHash0"
  by (simp add: storeByHash_def storeByHash_step_def generateVariations_def a_sol_def ebind_def
      byHash0_def js_def E0_sel list_ex_iff)

lemma rearrangeSources_M0: "rearrangeSources E0 M0 byHash0 = Inr r0"
  by (simp add: example_defs E0_sel)

lemma sources_M0:
  "entries (get M0 (js ''sources'')) =
     [(js ''a.sol'', JObj [(js ''keccak256'', JStr (js ''#a'' @ [LF])), (js ''urls'', JArr [])]),
      (js ''b.sol'', JObj [(js ''content'', JStr (js ''b'')), (js ''keccak256'', JStr (js ''#b''))]),
      (js ''c.sol'', c_sol),
      (js ''d.sol'', JObj [(js ''content'', JStr (js ''d'')), (js ''keccak256'', JStr (js ''#x''))])]"
  by (simp add: M0_def js_def c_sol_def)

lemma checkFiles_files_proto:
  "checkFiles E0 files_proto None =
     \<lparr>files_after = files_proto, unused_after = None, outcome = Inr [C_proto]\<rparr>"
  by (simp add: example_defs E0_sel)

lemma checkFiles_files_arr:
  "checkFiles E0 files_arr None =
     \<lparr>files_after = files_arr, unused_after = None, outcome = Inr [C_arr]\<rparr>"
  by (simp add: example_defs E0_sel)

lemma sources_M_proto:
  "entries (get M_proto (js ''sources'')) =
     [(js ''__proto__'', JObj [(js ''content'', JStr []), (js ''keccak256'', JStr (js ''#p'')),
                               (js ''urls'', JArr [])]),
      (js ''e.sol'', JObj [(js ''content'', JStr (js ''e'')), (js ''keccak256'', JStr (js ''#e''))])]"
  by (simp add: M_proto_def js_def)

text \<open>
  C1. The partition loses the key \<open>__proto__\<close>: for the manifest \<open>M_proto\<close>, which
  declares the sources \<open>__proto__\<close> and \<open>e.sol\<close>, \<open>checkFiles\<close> succeeds and returns a
  contract in which found, \<open>missing\<close> and \<open>invalid\<close> together hold the key \<open>e.sol\<close>
  alone; the declared source \<open>__proto__\<close>, which no supplied file matches, is in none of
  the three.
\<close>

theorem proto_source_in_no_partition:
  "outcome (checkFiles E0 files_proto None) = Inr [C_proto] \<and>
   metadata C_proto = M_proto \<and>
   map fst (entries (get M_proto (js ''sources''))) = [js ''__proto__'', js ''e.sol''] \<and>
   dom (solidity C_proto) \<union> dom (missing C_proto) \<union> dom (invalid C_proto) = {js ''e.sol''} \<and>
   js ''__proto__'' \<notin> dom (solidity C_proto) \<union> dom (missing C_proto) \<union> dom (invalid C_proto)"
  by (simp add: checkFiles_files_proto sources_M_proto) (simp add: C_proto_def js_def)

text \<open>
  C10. An entry with an empty inline content that is declared under the path \<open>__proto__\<close>
  is not placed in \<open>missing\<close>: no variation of a supplied source hashes to its digest
  (no source is supplied), and the reconciliation of \<open>M_proto\<close> leaves \<open>missing\<close>
  empty.
\<close>

theorem proto_empty_content_not_missing:
  "storeByHash E0 [] = Inr Map.empty \<and>
   get (get (get M_proto (js ''sources'')) (js ''__proto__'')) (js ''content'') = JStr [] \<and>
   rearrangeSources E0 M_proto Map.empty =
     Inr \<lparr>foundSources = [js ''e.sol'' \<mapsto> JStr (js ''e'')], missingSources = Map.empty,
          invalidSources = Map.empty, metadata2provided = []\<rparr>"
  by (simp add: example_defs E0_sel)

text \<open>
  C4 as stated fails: \<open>M_arr\<close> declares for \<open>b.sol\<close> the inline content \<open>b\<close> and, as
  its digest, an array that holds the hash of \<open>b\<close>. The comparison \<open>!=\<close> converts the
  array to the string it holds, and \<open>b.sol\<close> is found; the hash of its content, a
  string, is not the declared digest.
\<close>

theorem array_digest_found_counterexample:
  "outcome (checkFiles E0 files_arr None) = Inr [C_arr] \<and>
   solidity C_arr (js ''b.sol'') = Some (JStr (js ''b'')) \<and>
   get (get (get (metadata C_arr) (js ''sources'')) (js ''b.sol'')) (js ''keccak256'')
     = JArr [JStr (js ''#b'')] \<and>
   keccak256 E0 (JStr (js ''b'')) = Some (js ''#b'') \<and>
   hash_value (keccak256 E0 (JStr (js ''b''))) \<noteq>
     get (get (get (metadata C_arr) (js ''sources'')) (js ''b.sol'')) (js ''keccak256'')"
  by (simp add: checkFiles_files_arr) (simp add: example_defs E0_sel)

lemma checkFiles_partitions_ordinary_sources_example:
  "outcome (checkFiles E0 files0 None) = Inr [C0] \<and>
   dom (solidity C0) \<union> dom (missing C0) \<union> dom (invalid C0)
     = {js ''a.sol'', js ''b.sol'', js ''c.sol'', js ''d.sol''} \<and>
   dom (solidity C0) = {js ''a.sol'', js ''b.sol''} \<and>
   dom (missing C0) = {js ''c.sol''} \<and> dom (invalid C0) = {js ''d.sol''}"
proof -
  have o: "outcome (checkFiles E0 files0 None) = Inr [C0]" by (simp add: checkFiles_files0)
  have "C0 \<in> set [C0]" by simp
  from checkFiles_partitions_ordinary_sources [OF o this]
  have "dom (solidity C0) \<union> dom (missing C0) \<union> dom (invalid C0)
          = fst ` set (entries (get (metadata C0) (js ''sources''))) - {js ''__proto__''}"
    by simp
  also have "metadata C0 = M0" by (simp add: C0_def)
  finally have "dom (solidity C0) \<union> dom (missing C0) \<union> dom (invalid C0)
     = {js ''a.sol'', js ''b.sol'', js ''c.sol'', js ''d.sol''}"
    by (simp add: sources_M0) (auto simp: js_def)
  moreover have "dom (solidity C0) = {js ''a.sol'', js ''b.sol''}"
    "dom (missing C0) = {js ''c.sol''}" "dom (invalid C0) = {js ''d.sol''}"
    by (auto simp: C0_def)
  ultimately show ?thesis using o by simp
qed

theorem found_sources_hash_to_declared_digest_witness:
  "outcome (checkFiles E0 files0 None) = Inr [C0] \<and>
   solidity C0 (js ''a.sol'') = Some (JStr [0x61, 0x0A]) \<and>
   get (get (get M0 (js ''sources'')) (js ''a.sol'')) (js ''keccak256'') = JStr (js ''#a'' @ [LF]) \<and>
   keccak256 E0 (JStr [0x61, 0x0A]) = Some (js ''#a'' @ [LF])"
proof -
  have o: "outcome (checkFiles E0 files0 None) = Inr [C0]" by (simp add: checkFiles_files0)
  have m: "C0 \<in> set [C0]" by simp
  have s: "solidity C0 (js ''a.sol'') = Some (JStr [0x61, 0x0A])" by (simp add: C0_def js_def)
  from found_sources_hash_to_declared_digest [OF o m s] obtain info where
    i: "map_of (entries (get (metadata C0) (js ''sources''))) (js ''a.sol'') = Some info"
    and d: "\<forall>d. get info (js ''keccak256'') = JStr d \<longrightarrow> keccak256 E0 (JStr [0x61, 0x0A]) = Some d"
    by blast
  have "metadata C0 = M0" by (simp add: C0_def)
  with i have "info = JObj [(js ''keccak256'', JStr (js ''#a'' @ [LF])), (js ''urls'', JArr [])]"
    by (simp add: sources_M0)
  with d have "keccak256 E0 (JStr [0x61, 0x0A]) = Some (js ''#a'' @ [LF])" by simp
  moreover have "get (get (get M0 (js ''sources'')) (js ''a.sol'')) (js ''keccak256'')
      = JStr (js ''#a'' @ [LF])"
    by (simp add: M0_def js_def)
  ultimately show ?thesis using o s by simp
qed

lemma empty_inline_content_lookup_example:
  "storeByHash E0 [a_sol] = Inr byHash0 \<and> rearrangeSources E0 M0 byHash0 = Inr r0 \<and>
   get (get (get M0 (js ''sources'')) (js ''c.sol'')) (js ''content'') = JStr [] \<and>
   invalidSources r0 (js ''c.sol'') = None \<and> foundSources r0 (js ''c.sol'') = None \<and>
   missingSources r0 (js ''c.sol'') = Some \<lparr>ms_keccak256 = JStr (js ''#c''), ms_urls = JArr []\<rparr>"
proof -
  have i: "map_of (entries (get M0 (js ''sources''))) (js ''c.sol'') = Some c_sol"
    by (simp add: sources_M0) (simp add: js_def)
  have c: "get c_sol (js ''content'') = JStr []" by (simp add: c_sol_def)
  have f: "foundSources r0 (js ''c.sol'') = None" by (simp add: r0_def C0_def js_def)
  have p: "js ''c.sol'' \<noteq> js ''__proto__''" by (simp add: js_def)
  from empty_inline_content_lookup [OF storeByHash_a_sol rearrangeSources_M0 i c p] f
  have "invalidSources r0 (js ''c.sol'') = None"
    and "missingSources r0 (js ''c.sol'')
           = Some \<lparr>ms_keccak256 = get c_sol (js ''keccak256''), ms_urls = get c_sol (js ''urls'')\<rparr>"
    by simp_all
  moreover have "get c_sol (js ''keccak256'') = JStr (js ''#c'')" "get c_sol (js ''urls'') = JArr []"
    by (simp_all add: c_sol_def js_def)
  moreover have "get (get (get M0 (js ''sources'')) (js ''c.sol'')) (js ''content'') = JStr []"
    by (simp add: M0_def js_def)
  ultimately show ?thesis using f storeByHash_a_sol rearrangeSources_M0 by simp
qed

section \<open>Recognition, failures, the caller's array, all supplied sources\<close>



















lemma splitFiles_step_Inr:
  assumes "splitFiles_step E st f = Inr st'"
  shows "malformedMetadataFiles st' =
           malformedMetadataFiles st @ map pc_path (filter (discarded E) [f]) \<and>
         metadataFiles st' = metadataFiles st @ manifests_of E f \<and>
         sourceFiles st' = sourceFiles st @ sources_of E f"
  using assms
  by (auto simp: splitFiles_step_def discarded_def manifests_of_def sources_of_def ebind_Inr
      Let_def split: jsval.splits if_splits)



lemma fold_splitFiles_step:
  assumes "fold_err (splitFiles_step E) fs st = Inr st'"
  shows "malformedMetadataFiles st' =
           malformedMetadataFiles st @ map pc_path (filter (discarded E) fs) \<and>
         metadataFiles st' = metadataFiles st @ concat (map (manifests_of E) fs) \<and>
         sourceFiles st' = sourceFiles st @ concat (map (sources_of E) fs)"
  using assms
proof (induction fs arbitrary: st)
  case Nil
  then show ?case by simp
next
  case (Cons f fs)
  from Cons.prems obtain st1 where step: "splitFiles_step E st f = Inr st1"
    and rest: "fold_err (splitFiles_step E) fs st1 = Inr st'"
    by (auto simp: ebind_Inr)
  from splitFiles_step_Inr [OF step] Cons.IH [OF rest] show ?case by simp
qed

lemma splitFiles_Inr:
  assumes "splitFiles E fs = Inr (mds, srcs)"
  shows "mds = concat (map (manifests_of E) fs) \<and> srcs = concat (map (sources_of E) fs)"
proof -
  from assms obtain st where
    f: "fold_err (splitFiles_step E) fs
          \<lparr>metadataFiles = [], sourceFiles = [], malformedMetadataFiles = []\<rparr> = Inr st"
    and m: "mds = metadataFiles st" "srcs = sourceFiles st"
    by (auto simp: splitFiles_def ebind_Inr split: if_splits)
  from fold_splitFiles_step [OF f] m show ?thesis by simp
qed















lemma unzip_loop_readable:
  assumes "\<forall>f \<in> set fs. isZip (pb_buffer f) \<longrightarrow> JSZip_files E (pb_buffer f) \<noteq> None"
  shows "unzip_loop E kept fs acc =
           (kept @ filter (\<lambda>f. \<not> isZip (pb_buffer f)) fs,
            Inr (acc @ concat (map (\<lambda>f. case unzip E f of Inr ms \<Rightarrow> ms | Inl e \<Rightarrow> [])
                                 (filter (\<lambda>f. isZip (pb_buffer f)) fs))))"
  using assms
proof (induction fs arbitrary: kept acc)
  case Nil
  then show ?case by simp
next
  case (Cons f fs)
  then have IH: "\<And>kept acc. unzip_loop E kept fs acc =
           (kept @ filter (\<lambda>f. \<not> isZip (pb_buffer f)) fs,
            Inr (acc @ concat (map (\<lambda>f. case unzip E f of Inr ms \<Rightarrow> ms | Inl e \<Rightarrow> [])
                                 (filter (\<lambda>f. isZip (pb_buffer f)) fs))))"
    by simp
  show ?case
  proof (cases "isZip (pb_buffer f)")
    case True
    with Cons.prems obtain ms where "JSZip_files E (pb_buffer f) = Some ms" by auto
    then have "\<exists>us. unzip E f = Inr us" by (simp add: unzip_def)
    then obtain us where "unzip E f = Inr us" ..
    with True IH show ?thesis by simp
  next
    case False
    with IH show ?thesis by simp
  qed
qed

lemma files_after_checkFiles: "files_after (checkFiles E files unused) = fst (unzipFiles E files)"
  by (simp add: checkFiles_def split: prod.splits option.splits sum.splits)

text \<open>
  C6, as amended. \<open>checkFiles\<close> leaves the caller's array as it is when no element is an
  archive. When every archive in it can be read, the array afterwards is the elements that
  are no archives, in their order, followed by the members of the archives.
\<close>

theorem checkFiles_expands_archives_in_place:
  "((\<forall>f \<in> set files. \<not> isZip (pb_buffer f)) \<longrightarrow>
      files_after (checkFiles E files unused) = files) \<and>
   ((\<forall>f \<in> set files. isZip (pb_buffer f) \<longrightarrow> JSZip_files E (pb_buffer f) \<noteq> None) \<longrightarrow>
      files_after (checkFiles E files unused) =
        filter (\<lambda>f. \<not> isZip (pb_buffer f)) files @
        concat (map (\<lambda>f. case unzip E f of Inr ms \<Rightarrow> ms | Inl e \<Rightarrow> [])
                  (filter (\<lambda>f. isZip (pb_buffer f)) files)))"
proof (intro conjI impI)
  assume n: "\<forall>f \<in> set files. \<not> isZip (pb_buffer f)"
  then have "\<forall>f \<in> set files. isZip (pb_buffer f) \<longrightarrow> JSZip_files E (pb_buffer f) \<noteq> None"
    by simp
  from unzip_loop_readable [OF this, of "[]" "[]"] n
  show "files_after (checkFiles E files unused) = files"
    by (simp add: files_after_checkFiles unzipFiles_def)
next
  assume "\<forall>f \<in> set files. isZip (pb_buffer f) \<longrightarrow> JSZip_files E (pb_buffer f) \<noteq> None"
  from unzip_loop_readable [OF this, of "[]" "[]"]
  show "files_after (checkFiles E files unused) =
        filter (\<lambda>f. \<not> isZip (pb_buffer f)) files @
        concat (map (\<lambda>f. case unzip E f of Inr ms \<Rightarrow> ms | Inl e \<Rightarrow> [])
                  (filter (\<lambda>f. isZip (pb_buffer f)) files))"
    by (simp add: files_after_checkFiles unzipFiles_def)
qed

lemma pathContentArrayToStringMap_loop_Cons:
  "pathContentArrayToStringMap_loop i (x # xs) obj =
     pathContentArrayToStringMap_loop (Suc i) xs
       (assign_property (stringMap_key i x) (pc_content x) obj)"
  by (simp add: stringMap_key_def)

lemma assign_property_at:
  "k \<noteq> js ''__proto__'' \<Longrightarrow>
     fst (assign_property key v obj) k = (if key = k then Some v else fst obj k)"
  by (cases obj) (auto simp: assign_property_def)

text \<open>
  Under a key other than \<open>__proto__\<close> the loop leaves the content of the last element
  stored under that key, or what the object held before.
\<close>

lemma pathContentArrayToStringMap_loop_at:
  assumes "k \<noteq> js ''__proto__''"
  shows "fst (pathContentArrayToStringMap_loop i srcs obj) k =
           (case map_of (rev (map (\<lambda>(i, elem). (stringMap_key i elem, pc_content elem))
                                (enumerate i srcs))) k of
              Some v \<Rightarrow> Some v
            | None \<Rightarrow> fst obj k)"
proof (induction srcs arbitrary: i obj)
  case Nil
  then show ?case by simp
next
  case (Cons x xs)
  show ?case
    unfolding pathContentArrayToStringMap_loop_Cons Cons.IH
    using assms by (auto simp: assign_property_at map_add_def split: option.splits)
qed

lemma pathContentArrayToStringMap_at:
  "k \<noteq> js ''__proto__'' \<Longrightarrow>
     fst (pathContentArrayToStringMap srcs) k = map_of (rev (keyed_sources srcs)) k"
  by (simp add: pathContentArrayToStringMap_def pathContentArrayToStringMap_loop_at
      keyed_sources_def split: option.splits)

lemma useAllSources_Inr:
  "used_outcome (useAllSources E contract files) = Inr C' \<longleftrightarrow>
     (\<exists>files' mds srcs. unzipFiles E files = (files', None) \<and>
        splitFiles E (parse_files E files') = Inr (mds, srcs) \<and>
        C' = \<lparr>metadata = metadata contract,
              solidity = Object_assign (pathContentArrayToStringMap srcs) (solidity contract),
              missing = missing contract, invalid = invalid contract\<rparr>)"
proof -
  obtain files' x where u: "unzipFiles E files = (files', x)" by (cases "unzipFiles E files")
  show ?thesis
  proof (cases x)
    case (Some e)
    with u show ?thesis by (simp add: useAllSources_def)
  next
    case None
    show ?thesis
    proof (cases "splitFiles E (parse_files E files')")
      case (Inl e)
      with u None show ?thesis by (simp add: useAllSources_def)
    next
      case (Inr ms)
      then show ?thesis using u None by (cases ms) (auto simp: useAllSources_def Let_def)
    qed
  qed
qed

lemma unzipFiles_no_archive:
  assumes "\<forall>f \<in> set files. \<not> isZip (pb_buffer f)"
  shows "unzipFiles E files = (files, None)"
proof -
  from assms have "\<forall>f \<in> set files. isZip (pb_buffer f) \<longrightarrow> JSZip_files E (pb_buffer f) \<noteq> None"
    by simp
  from unzip_loop_readable [OF this, of "[]" "[]"] assms show ?thesis
    by (simp add: unzipFiles_def)
qed

text \<open>
  C7, as amended. After a successful \<open>checkFiles\<close> on a bag, \<open>useAllSources\<close> with a
  contract that call returned and the bag as it was supplied returns a contract whose
  source map is the map of the candidate sources of the bag (the files that hold no
  metadata, and the sources of build-info bundles), overridden by the found sources of
  the contract: under every key other than \<open>__proto__\<close> it holds the verified content
  when the contract found a source under the key, and otherwise the content of the last
  candidate source stored under the key (its path, or \<open>path-i\<close> for the \<open>i\<close>-th source
  when its path is empty), if there is one; so the map contains the found map. Metadata,
  \<open>missing\<close> and \<open>invalid\<close> are those of the contract. Called with the array as
  \<open>checkFiles\<close> left it, \<open>useAllSources\<close> does the same when no archive is left in the
  array.
\<close>

theorem useAllSources_adds_supplied_sources:
  assumes "outcome (checkFiles E bag unused) = Inr contracts" and "contract \<in> set contracts"
  shows "\<exists>files' srcs C'.
           unzipFiles E bag = (files', None) \<and>
           splitFiles E (parse_files E files') = Inr (map metadata contracts, srcs) \<and>
           srcs = concat (map (sources_of E) (parse_files E files')) \<and>
           files_after (checkFiles E bag unused) = files' \<and>
           used_outcome (useAllSources E contract bag) = Inr C' \<and>
           ((\<forall>f \<in> set files'. \<not> isZip (pb_buffer f)) \<longrightarrow>
              useAllSources E contract files' = useAllSources E contract bag) \<and>
           (\<forall>k. k \<noteq> js ''__proto__'' \<longrightarrow>
                solidity C' k =
                  (case solidity contract k of
                     Some v \<Rightarrow> Some v
                   | None \<Rightarrow> map_of (rev (keyed_sources srcs)) k)) \<and>
           solidity contract \<subseteq>\<^sub>m solidity C' \<and>
           metadata C' = metadata contract \<and> missing C' = missing contract \<and>
           invalid C' = invalid contract"
proof -
  from assms(1) obtain files' srcs where
    u: "unzipFiles E bag = (files', None)"
    and s: "splitFiles E (parse_files E files') = Inr (map metadata contracts, srcs)"
    and f: "files_after (checkFiles E bag unused) = files'"
    by (rule checkFiles_Inr)
  from splitFiles_Inr [OF s]
  have srcs: "srcs = concat (map (sources_of E) (parse_files E files'))" by simp
  let ?C = "\<lparr>metadata = metadata contract,
            solidity = Object_assign (pathContentArrayToStringMap srcs) (solidity contract),
            missing = missing contract, invalid = invalid contract\<rparr>"
  have r: "useAllSources E contract bag = \<lparr>used_files_after = files', used_outcome = Inr ?C\<rparr>"
    using u s by (simp add: useAllSources_def)
  have same: "useAllSources E contract files' = useAllSources E contract bag"
    if "\<forall>f \<in> set files'. \<not> isZip (pb_buffer f)"
  proof -
    from that have "unzipFiles E files' = (files', None)" by (rule unzipFiles_no_archive)
    with s r show ?thesis by (simp add: useAllSources_def)
  qed
  from checkFiles_partitions_ordinary_sources [OF assms]
  have "js ''__proto__'' \<notin> dom (solidity contract)" by blast
  then have p: "solidity contract (js ''__proto__'') = None" by blast
  have at: "\<forall>k. k \<noteq> js ''__proto__'' \<longrightarrow>
                solidity ?C k =
                  (case solidity contract k of
                     Some v \<Rightarrow> Some v
                   | None \<Rightarrow> map_of (rev (keyed_sources srcs)) k)"
    by (simp add: Object_assign_def pathContentArrayToStringMap_at assign_property_at
        split: option.splits)
  have le: "solidity contract \<subseteq>\<^sub>m solidity ?C"
    unfolding map_le_def
  proof
    fix k assume "k \<in> dom (solidity contract)"
    with p have "k \<noteq> js ''__proto__''" by auto
    with \<open>k \<in> dom (solidity contract)\<close> show "solidity contract k = solidity ?C k"
      by (auto simp: Object_assign_def assign_property_at)
  qed
  show ?thesis
    using u s srcs f r same at le
    by (intro exI [of _ files'] exI [of _ srcs] exI [of _ ?C]) simp
qed

section \<open>The examples, evaluated further\<close>










lemma files0_neq: "files0 \<noteq> files_zip"
  by (simp add: files0_def files_zip_def)

text \<open>
  C6 as stated fails: for a bag that is one archive, \<open>checkFiles\<close> succeeds and leaves
  the members of the archive in the caller's array.
\<close>

theorem archive_changes_callers_array_counterexample:
  "files_after (checkFiles E0 files_zip None) = files0 \<and> files0 \<noteq> files_zip \<and>
   outcome (checkFiles E0 files_zip None) = Inr [C0]"
  by (simp add: checkFiles_files_zip files0_neq)

theorem checkFiles_expands_archives_in_place_witness:
  "files_after (checkFiles E0 files0 None) = files0 \<and>
   files_after (checkFiles E0 files_zip None) = files0"
proof -
  have "\<forall>f \<in> set files0. \<not> isZip (pb_buffer f)"
    by (simp add: files0_def isZip_def byte_at_def)
  with checkFiles_expands_archives_in_place [of files0 E0 None]
  have 1: "files_after (checkFiles E0 files0 None) = files0" by simp
  have "\<forall>f \<in> set files_zip. isZip (pb_buffer f) \<longrightarrow> JSZip_files E0 (pb_buffer f) \<noteq> None"
    by (simp add: files_zip_def E0_sel)
  with checkFiles_expands_archives_in_place [of files_zip E0 None]
  have "files_after (checkFiles E0 files_zip None) =
        filter (\<lambda>f. \<not> isZip (pb_buffer f)) files_zip @
        concat (map (\<lambda>f. case unzip E0 f of Inr ms \<Rightarrow> ms | Inl e \<Rightarrow> [])
                  (filter (\<lambda>f. isZip (pb_buffer f)) files_zip))"
    by simp
  also have "\<dots> = files0"
    by (simp add: files_zip_def files0_def isZip_def byte_at_def archive0_def unzip_def E0_sel)
  finally show ?thesis using 1 by simp
qed

text \<open>
  A source whose path is \<open>__proto__\<close> leaves no property in the object that
  \<open>pathContentArrayToStringMap\<close> returns.
\<close>

lemma pathContentArrayToStringMap_proto:
  "fst (pathContentArrayToStringMap
          [\<lparr>pc_content = JStr (js ''x''), pc_path = js ''__proto__''\<rparr>,
           \<lparr>pc_content = JStr (js ''y''), pc_path = js ''y.sol''\<rparr>])
     = [js ''y.sol'' \<mapsto> JStr (js ''y'')]"
  by (simp add: pathContentArrayToStringMap_def assign_property_def
      inherits_proto_accessor_def js_def)

lemma checkFiles_files_extra:
  "checkFiles E0 files_extra None =
     \<lparr>files_after = files_extra, unused_after = None, outcome = Inr [C0]\<rparr>"
  by (simp add: example_defs E0_sel)

lemma checkFiles_files_nested:
  "checkFiles E0 files_nested None =
     \<lparr>files_after = files_unpacked, unused_after = None, outcome = Inr [C0]\<rparr>"
  by (simp add: example_defs E0_sel)

lemma useAllSources_files_unpacked:
  "used_outcome (useAllSources E0 C0 files_unpacked) = Inl (ArchiveUnreadable (js ''inner.zip''))"
  by (simp add: useAllSources_def example_defs E0_sel)

text \<open>
  C7 as stated fails: \<open>checkFiles\<close> succeeds on a bag that is one archive holding a
  manifest, a source and an archive that cannot be read, and leaves the three members in
  the caller's array; \<open>useAllSources\<close> with the returned contract and that array throws
  on the member that is an archive.
\<close>

theorem nested_archive_useAllSources_counterexample:
  "outcome (checkFiles E0 files_nested None) = Inr [C0] \<and>
   files_after (checkFiles E0 files_nested None) = files_unpacked \<and>
   used_outcome (useAllSources E0 C0 files_unpacked) = Inl (ArchiveUnreadable (js ''inner.zip''))"
  by (simp add: checkFiles_files_nested useAllSources_files_unpacked)

lemma sources_of_files_extra:
  "unzipFiles E0 files_extra = (files_extra, None) \<and>
   keyed_sources (concat (map (sources_of E0) (parse_files E0 files_extra))) =
     [(js ''a.sol'', JStr [0x61, 0x0D, 0x0A]), (js ''x.sol'', JStr (js ''x''))]"
  by (simp add: sources_of_def keyed_sources_def stringMap_key_def enumerate_simps
      example_defs E0_sel)

theorem useAllSources_adds_supplied_sources_witness:
  "outcome (checkFiles E0 files_extra None) = Inr [C0] \<and>
   (\<exists>C'. used_outcome (useAllSources E0 C0 files_extra) = Inr C' \<and>
      solidity C' (js ''x.sol'') = Some (JStr (js ''x'')) \<and>
      solidity C' (js ''a.sol'') = Some (JStr [0x61, 0x0A]) \<and>
      solidity C' (js ''b.sol'') = Some (JStr (js ''b'')) \<and>
      solidity C' (js ''c.sol'') = None \<and>
      metadata C' = M0) \<and>
   files_after (checkFiles E0 files_zip None) = files0 \<and>
   useAllSources E0 C0 files0 = useAllSources E0 C0 files_zip"
proof -
  have o: "outcome (checkFiles E0 files_extra None) = Inr [C0]"
    by (simp add: checkFiles_files_extra)
  have c: "C0 \<in> set [C0]" by simp
  from useAllSources_adds_supplied_sources [OF o c] obtain files' srcs C' where
    u: "unzipFiles E0 files_extra = (files', None)"
    and "splitFiles E0 (parse_files E0 files') = Inr (map metadata [C0], srcs)"
    and s: "srcs = concat (map (sources_of E0) (parse_files E0 files'))"
    and "files_after (checkFiles E0 files_extra None) = files'"
    and C': "used_outcome (useAllSources E0 C0 files_extra) = Inr C'"
    and "(\<forall>f \<in> set files'. \<not> isZip (pb_buffer f)) \<longrightarrow>
              useAllSources E0 C0 files' = useAllSources E0 C0 files_extra"
    and at: "\<forall>k. k \<noteq> js ''__proto__'' \<longrightarrow>
                solidity C' k =
                  (case solidity C0 k of
                     Some v \<Rightarrow> Some v
                   | None \<Rightarrow> map_of (rev (keyed_sources srcs)) k)"
    and "solidity C0 \<subseteq>\<^sub>m solidity C'"
    and m: "metadata C' = metadata C0"
    and "missing C' = missing C0" and "invalid C' = invalid C0"
    by (elim exE conjE) (rule that)
  from u sources_of_files_extra have "files' = files_extra" by simp
  with s sources_of_files_extra
  have k: "keyed_sources srcs =
     [(js ''a.sol'', JStr [0x61, 0x0D, 0x0A]), (js ''x.sol'', JStr (js ''x''))]"
    by simp
  have v: "solidity C' (js ''x.sol'') = Some (JStr (js ''x''))"
    "solidity C' (js ''a.sol'') = Some (JStr [0x61, 0x0A])"
    "solidity C' (js ''b.sol'') = Some (JStr (js ''b''))"
    "solidity C' (js ''c.sol'') = None"
    using at [rule_format, of "js ''x.sol''"] at [rule_format, of "js ''a.sol''"]
      at [rule_format, of "js ''b.sol''"] at [rule_format, of "js ''c.sol''"]
    unfolding k by (simp_all add: C0_def js_def)
  from m have m0: "metadata C' = M0" by (simp add: C0_def)
  have oz: "outcome (checkFiles E0 files_zip None) = Inr [C0]"
    and fz: "files_after (checkFiles E0 files_zip None) = files0"
    by (simp_all add: checkFiles_files_zip)
  have z: "\<forall>f \<in> set files0. \<not> isZip (pb_buffer f)"
    by (simp add: files0_def isZip_def byte_at_def)
  from useAllSources_adds_supplied_sources [OF oz c] obtain files'' where
    "files_after (checkFiles E0 files_zip None) = files''"
    and "(\<forall>f \<in> set files''. \<not> isZip (pb_buffer f)) \<longrightarrow>
              useAllSources E0 C0 files'' = useAllSources E0 C0 files_zip"
    by (elim exE conjE) (rule that)
  with fz z have e: "useAllSources E0 C0 files0 = useAllSources E0 C0 files_zip"
    by simp
  from C' v m0 have "\<exists>C'. used_outcome (useAllSources E0 C0 files_extra) = Inr C' \<and>
      solidity C' (js ''x.sol'') = Some (JStr (js ''x'')) \<and>
      solidity C' (js ''a.sol'') = Some (JStr [0x61, 0x0A]) \<and>
      solidity C' (js ''b.sol'') = Some (JStr (js ''b'')) \<and>
      solidity C' (js ''c.sol'') = None \<and>
      metadata C' = M0"
    by (intro exI [of _ C']) simp
  with o fz e show ?thesis by simp
qed

section \<open>The chain monitor's pause and block numbers\<close>

lemma load_config_Some:
  "load_config env = Some cfg \<Longrightarrow> 1 < BLOCK_PAUSE_FACTOR cfg"
  by (auto simp: load_config_def Let_def split: if_splits)

lemma adaptBlockPause_eq:
  "adaptBlockPause cfg increase p =
     max (min (p * BLOCK_PAUSE_FACTOR cfg) (BLOCK_PAUSE_UPPER_LIMIT cfg)) (BLOCK_PAUSE_LOWER_LIMIT cfg)"
  "adaptBlockPause cfg decrease p =
     max (min (p / BLOCK_PAUSE_FACTOR cfg) (BLOCK_PAUSE_UPPER_LIMIT cfg)) (BLOCK_PAUSE_LOWER_LIMIT cfg)"
  by (simp_all add: adaptBlockPause_def Let_def)

lemma adaptBlockPause_bounds:
  assumes "BLOCK_PAUSE_LOWER_LIMIT cfg \<le> BLOCK_PAUSE_UPPER_LIMIT cfg"
  shows "BLOCK_PAUSE_LOWER_LIMIT cfg \<le> adaptBlockPause cfg operation p \<and>
         adaptBlockPause cfg operation p \<le> BLOCK_PAUSE_UPPER_LIMIT cfg"
  using assms by (simp add: adaptBlockPause_def Let_def)

lemma adaptBlockPause_crossed:
  assumes "BLOCK_PAUSE_UPPER_LIMIT cfg < BLOCK_PAUSE_LOWER_LIMIT cfg"
  shows "adaptBlockPause cfg operation p = BLOCK_PAUSE_LOWER_LIMIT cfg"
  using assms by (simp add: adaptBlockPause_def Let_def max_def min_def)

text \<open>
  C8, as amended. The module loads only with a pacing factor greater than 1 (the defaults
  are the factor 1.1 and the limits 500 and 30000). \<open>processBlock\<close> adapts the pause with
  \<open>increase\<close> on a \<open>null\<close> block and with \<open>decrease\<close> on a block, and not when the fetch
  fails; \<open>increase\<close> multiplies the pause by the factor, \<open>decrease\<close> divides it by the
  factor, and the result is cut to the upper limit and then raised to the lower limit. So
  after every adaptation the pause is between the limits when the lower limit is at most
  the upper limit; when the configured lower limit is above the upper limit, the pause is
  the lower limit.
\<close>

theorem adaptBlockPause_within_ordered_limits:
  assumes "load_config env = Some cfg"
  shows "1 < BLOCK_PAUSE_FACTOR cfg \<and>
    (\<forall>p. adaptBlockPause cfg increase p =
           max (min (p * BLOCK_PAUSE_FACTOR cfg) (BLOCK_PAUSE_UPPER_LIMIT cfg))
             (BLOCK_PAUSE_LOWER_LIMIT cfg) \<and>
         adaptBlockPause cfg decrease p =
           max (min (p / BLOCK_PAUSE_FACTOR cfg) (BLOCK_PAUSE_UPPER_LIMIT cfg))
             (BLOCK_PAUSE_LOWER_LIMIT cfg)) \<and>
    (BLOCK_PAUSE_LOWER_LIMIT cfg \<le> BLOCK_PAUSE_UPPER_LIMIT cfg \<longrightarrow>
       (\<forall>operation p. BLOCK_PAUSE_LOWER_LIMIT cfg \<le> adaptBlockPause cfg operation p \<and>
                      adaptBlockPause cfg operation p \<le> BLOCK_PAUSE_UPPER_LIMIT cfg)) \<and>
    (BLOCK_PAUSE_UPPER_LIMIT cfg < BLOCK_PAUSE_LOWER_LIMIT cfg \<longrightarrow>
       (\<forall>operation p. adaptBlockPause cfg operation p = BLOCK_PAUSE_LOWER_LIMIT cfg)) \<and>
    (\<forall>gca ver m n transactions.
       getBlockPause (monitor_after (processBlock cfg gca ver m n (Resolved None)))
         = adaptBlockPause cfg increase (getBlockPause m) \<and>
       getBlockPause (monitor_after (processBlock cfg gca ver m n (Resolved (Some transactions))))
         = adaptBlockPause cfg decrease (getBlockPause m) \<and>
       getBlockPause (monitor_after (processBlock cfg gca ver m n Rejected)) = getBlockPause m) \<and>
    (\<forall>env'. load_config env' \<noteq> None \<longleftrightarrow> 1 < env_or (env_BLOCK_PAUSE_FACTOR env') 1.1) \<and>
    load_config default_env = Some default_config"
proof (intro conjI allI impI)
  show "1 < BLOCK_PAUSE_FACTOR cfg" using assms by (rule load_config_Some)
next
  fix env'
  show "load_config env' \<noteq> None \<longleftrightarrow> 1 < env_or (env_BLOCK_PAUSE_FACTOR env') 1.1"
    by (simp add: load_config_def Let_def)
next
  show "load_config default_env = Some default_config"
    by (simp add: load_config_def default_env_def default_config_def env_or_def)
qed (simp_all add: adaptBlockPause_eq adaptBlockPause_bounds adaptBlockPause_crossed
      processBlock_def Let_def case_prod_beta)

theorem adaptBlockPause_within_ordered_limits_witness:
  "load_config default_env = Some default_config \<and>
   adaptBlockPause default_config increase 10000 = 11000 \<and>
   adaptBlockPause default_config increase 29000 = 30000 \<and>
   adaptBlockPause default_config decrease 520 = 500 \<and>
   500 \<le> adaptBlockPause default_config decrease 10000 \<and>
   adaptBlockPause default_config decrease 10000 \<le> 30000"
proof -
  have l: "load_config default_env = Some default_config"
    by (simp add: load_config_def default_env_def default_config_def env_or_def)
  note t = adaptBlockPause_within_ordered_limits [OF l]
  have "BLOCK_PAUSE_LOWER_LIMIT default_config \<le> BLOCK_PAUSE_UPPER_LIMIT default_config"
    by (simp add: default_config_def)
  with t have "BLOCK_PAUSE_LOWER_LIMIT default_config \<le> adaptBlockPause default_config decrease 10000 \<and>
      adaptBlockPause default_config decrease 10000 \<le> BLOCK_PAUSE_UPPER_LIMIT default_config"
    by blast
  moreover from t have "adaptBlockPause default_config increase 10000 = 11000"
    "adaptBlockPause default_config increase 29000 = 30000"
    "adaptBlockPause default_config decrease 520 = 500"
    by (simp_all add: default_config_def)
  ultimately show ?thesis using l by (simp add: default_config_def)
qed

text \<open>
  C8 as stated fails: with \<open>BLOCK_PAUSE_LOWER_LIMIT=40000\<close> and the default upper limit
  the pause after an adaptation is 40000, above the upper limit.
\<close>

theorem crossed_limits_counterexample:
  "load_config misconfigured_env = Some misconfigured_config \<and>
   initial_getBlockPause misconfigured_env = 10000 \<and>
   BLOCK_PAUSE_UPPER_LIMIT misconfigured_config = 30000 \<and>
   adaptBlockPause misconfigured_config increase 10000 = 40000 \<and>
   adaptBlockPause misconfigured_config decrease 10000 = 40000 \<and>
   \<not> adaptBlockPause misconfigured_config increase 10000
       \<le> BLOCK_PAUSE_UPPER_LIMIT misconfigured_config"
  by (simp add: load_config_def misconfigured_env_def misconfigured_config_def env_or_def
      initial_getBlockPause_def adaptBlockPause_def Let_def)

lemma transaction_loop_completes:
  "snd (transaction_loop gca ver transactions calls) \<longleftrightarrow>
     (\<forall>tx \<in> set transactions.
        createsContract tx \<longrightarrow> (\<exists>address. gca tx = Some address \<and> ver address \<noteq> None))"
  by (induction transactions arbitrary: calls) (auto split: option.splits)

lemma processBlock_eq:
  "processBlock cfg gca ver m n Rejected =
     \<lparr>monitor_after = m, blockNumber_after = n, processBytecode_calls = [],
      rescheduled = (if running m then Some (getBlockPause m, n) else None)\<rparr>"
  "processBlock cfg gca ver m n (Resolved None) =
     \<lparr>monitor_after = m\<lparr>getBlockPause := adaptBlockPause cfg increase (getBlockPause m)\<rparr>,
      blockNumber_after = n, processBytecode_calls = [],
      rescheduled = (if running m
                     then Some (adaptBlockPause cfg increase (getBlockPause m), n) else None)\<rparr>"
  "processBlock cfg gca ver m n (Resolved (Some transactions)) =
     \<lparr>monitor_after = m\<lparr>getBlockPause := adaptBlockPause cfg decrease (getBlockPause m)\<rparr>,
      blockNumber_after = (if snd (transaction_loop gca ver transactions []) then n + 1 else n),
      processBytecode_calls = fst (transaction_loop gca ver transactions []),
      rescheduled =
        (if running m
         then Some (adaptBlockPause cfg decrease (getBlockPause m),
                    if snd (transaction_loop gca ver transactions []) then n + 1 else n)
         else None)\<rparr>"
  by (simp_all add: processBlock_def Let_def case_prod_beta)

lemma processBlock_blockNumber:
  "blockNumber_after (processBlock cfg gca ver m n (Resolved (Some transactions))) =
     (if snd (transaction_loop gca ver transactions []) then n + 1 else n)"
  "blockNumber_after (processBlock cfg gca ver m n (Resolved None)) = n"
  "blockNumber_after (processBlock cfg gca ver m n Rejected) = n"
  by (simp_all add: processBlock_eq)

lemma processBlock_rescheduled:
  "rescheduled (processBlock cfg gca ver m n answer) =
     (if running m
      then Some (getBlockPause (monitor_after (processBlock cfg gca ver m n answer)),
                 blockNumber_after (processBlock cfg gca ver m n answer))
      else None)"
proof (cases answer)
  case Rejected
  then show ?thesis by (simp add: processBlock_eq)
next
  case (Resolved block)
  then show ?thesis by (cases block) (simp_all add: processBlock_eq)
qed

lemma processBlock_running:
  "running (monitor_after (processBlock cfg gca ver m n answer)) = running m"
proof (cases answer)
  case Rejected
  then show ?thesis by (simp add: processBlock_eq)
next
  case (Resolved block)
  then show ?thesis by (cases block) (simp_all add: processBlock_eq)
qed

lemma poll_nth:
  "i < length (poll cfg gca ver m n es) \<Longrightarrow>
     fst (poll cfg gca ver m n es ! i) =
       n + int (length (filter snd (take i (poll cfg gca ver m n es))))"
proof (induction es arbitrary: m n i)
  case Nil
  then show ?case by simp
next
  case (Cons e es)
  show ?case
  proof (cases e)
    case Stop
    with Cons.IH [of i "m\<lparr>running := False\<rparr>" n] Cons.prems show ?thesis by simp
  next
    case (Answer answer)
    let ?r = "processBlock cfg gca ver m n answer"
    show ?thesis
    proof (cases "running m")
      case False
      with Answer Cons.prems show ?thesis
        by (cases answer rule: fetch.exhaust)
          (simp_all add: Let_def processBlock_rescheduled split: option.splits)
    next
      case True
      show ?thesis
      proof (cases "\<exists>transactions. answer = Resolved (Some transactions)")
        case True
        then obtain transactions where a: "answer = Resolved (Some transactions)" ..
        let ?c = "snd (transaction_loop gca ver transactions [])"
        let ?n = "if ?c then n + 1 else n"
        let ?rest = "poll cfg gca ver (monitor_after ?r) ?n es"
        have p: "poll cfg gca ver m n (e # es) = (n, ?c) # ?rest"
          using Answer a \<open>running m\<close>
          by (simp add: Let_def processBlock_rescheduled processBlock_blockNumber)
        show ?thesis
        proof (cases i)
          case 0
          with p show ?thesis by simp
        next
          case (Suc j)
          with Cons.prems p have "j < length ?rest" by simp
          then have "fst (?rest ! j) = ?n + int (length (filter snd (take j ?rest)))"
            by (rule Cons.IH)
          with p Suc show ?thesis by simp
        qed
      next
        case False
        then have b: "blockNumber_after ?r = n"
          by (cases answer rule: fetch.exhaust) (auto simp: processBlock_blockNumber)
        have "poll cfg gca ver m n (e # es) = poll cfg gca ver (monitor_after ?r) n es"
          using Answer False \<open>running m\<close> b
          by (cases answer rule: fetch.exhaust)
            (auto simp: Let_def processBlock_rescheduled split: option.splits)
        with Cons.IH [of i "monitor_after ?r" n] Cons.prems show ?thesis by simp
      qed
    qed
  qed
qed

lemma completed_consecutive:
  fixes xs :: "(int \<times> bool) list"
  assumes "\<And>i. i < length xs \<Longrightarrow> fst (xs ! i) = n + int (length (filter snd (take i xs)))"
  shows "map fst (filter snd xs) = map (\<lambda>i. n + int i) [0..<length (filter snd xs)]"
  using assms
proof (induction xs rule: rev_induct)
  case Nil
  then show ?case by simp
next
  case (snoc x xs)
  have "fst (xs ! i) = n + int (length (filter snd (take i xs)))" if "i < length xs" for i
    using snoc.prems [of i] that by (simp add: nth_append)
  then have IH: "map fst (filter snd xs) = map (\<lambda>i. n + int i) [0..<length (filter snd xs)]"
    by (rule snoc.IH)
  from snoc.prems [of "length xs"]
  have "fst x = n + int (length (filter snd xs))" by simp
  with IH show ?case by simp
qed

lemma poll_completed:
  "map fst (filter snd (poll cfg gca ver m n es)) =
     map (\<lambda>i. n + int i) [0..<length (filter snd (poll cfg gca ver m n es))]"
  by (rule completed_consecutive) (rule poll_nth)

lemma poll_entries:
  "x \<in> set (poll cfg gca ver m n es) \<Longrightarrow>
     \<exists>transactions. Answer (Resolved (Some transactions)) \<in> set es \<and>
       snd x = snd (transaction_loop gca ver transactions [])"
proof (induction es arbitrary: m n)
  case Nil
  then show ?case by simp
next
  case (Cons e es)
  show ?case
  proof (cases e)
    case Stop
    with Cons.IH [of "m\<lparr>running := False\<rparr>" n] Cons.prems show ?thesis by auto
  next
    case (Answer answer)
    let ?r = "processBlock cfg gca ver m n answer"
    from Cons.prems Answer
    have "(\<exists>transactions. answer = Resolved (Some transactions) \<and>
             x = (n, snd (transaction_loop gca ver transactions []))) \<or>
          (\<exists>m' n'. x \<in> set (poll cfg gca ver m' n' es))"
      by (cases answer rule: fetch.exhaust) (auto simp: Let_def split: option.splits)
    then show ?thesis
    proof (elim disjE exE conjE)
      fix transactions
      assume "answer = Resolved (Some transactions)"
        "x = (n, snd (transaction_loop gca ver transactions []))"
      with Answer show ?thesis by auto
    next
      fix m' n'
      assume "x \<in> set (poll cfg gca ver m' n' es)"
      from Cons.IH [OF this] show ?thesis by auto
    qed
  qed
qed

lemma poll_no_throw:
  assumes "\<forall>tx. gca tx \<noteq> None" and "\<forall>address. ver address \<noteq> None"
  shows "poll cfg gca ver m n es =
           map (\<lambda>i. (n + int i, True)) [0..<length (poll cfg gca ver m n es)]"
proof -
  let ?p = "poll cfg gca ver m n es"
  have all: "snd x" if "x \<in> set ?p" for x
  proof -
    from poll_entries [OF that] obtain transactions where
      "snd x = snd (transaction_loop gca ver transactions [])" by blast
    with assms show ?thesis by (auto simp: transaction_loop_completes)
  qed
  then have f: "filter snd ?p = ?p" by (simp add: filter_id_conv)
  show ?thesis
  proof (rule nth_equalityI)
    show "length ?p = length (map (\<lambda>i. (n + int i, True)) [0..<length ?p])" by simp
  next
    fix i assume i: "i < length ?p"
    then have "?p ! i \<in> set ?p" by simp
    then have s: "snd (?p ! i)" by (rule all)
    have "filter snd (take i ?p) = take i ?p"
      using all by (auto simp: filter_id_conv dest: in_set_takeD)
    with poll_nth [OF i] i have "fst (?p ! i) = n + int i" by simp
    with s i show "?p ! i = map (\<lambda>i. (n + int i, True)) [0..<length ?p] ! i"
      by (simp add: prod_eq_iff)
  qed
qed

lemma poll_running_count:
  "running m \<Longrightarrow> Stop \<notin> set es \<Longrightarrow>
     length (poll cfg gca ver m n es) = length (filter is_block es)"
proof (induction es arbitrary: m n)
  case Nil
  then show ?case by simp
next
  case (Cons e es)
  from Cons.prems obtain answer where e: "e = Answer answer" by (cases e) auto
  let ?r = "processBlock cfg gca ver m n answer"
  from Cons.prems have r: "running (monitor_after ?r)" by (simp add: processBlock_running)
  from Cons.prems have s: "Stop \<notin> set es" by simp
  from Cons.IH [OF r s] Cons.prems(1) show ?case
    by (cases answer rule: fetch.exhaust)
      (auto simp: e Let_def processBlock_rescheduled is_block_def split: option.splits)
qed

text \<open>
  C9, as amended. \<open>processBlock\<close> arms the timer with the block number plus one after a
  fetched block whose loop over the transactions runs to its end, that is when for every
  contract creation in the block \<open>getContractAddress\<close> and the verified lookup return;
  it arms it with the same block number after a \<open>null\<close> block, after a failed fetch, and
  after a fetched block in whose loop a call throws (and it arms the timer only when the
  monitor is running). So the number of every block the monitor goes through is the start
  block plus the number of blocks completed before it: the blocks whose processing
  completed are the start block and its successors, each once and none left out, and a
  block in whose loop a call throws is fetched and gone through again. When no call
  throws, every fetched block completes and the blocks gone through are the start block
  and its successors; while the monitor is not stopped every fetched block is gone
  through.
\<close>

theorem block_number_advances_when_loop_completes:
  "blockNumber_after (processBlock cfg gca ver m n (Resolved (Some transactions))) =
     (if \<forall>tx \<in> set transactions.
           createsContract tx \<longrightarrow> (\<exists>address. gca tx = Some address \<and> ver address \<noteq> None)
      then n + 1 else n) \<and>
   blockNumber_after (processBlock cfg gca ver m n (Resolved None)) = n \<and>
   blockNumber_after (processBlock cfg gca ver m n Rejected) = n \<and>
   (\<forall>answer. rescheduled (processBlock cfg gca ver m n answer) =
      (if running m
       then Some (getBlockPause (monitor_after (processBlock cfg gca ver m n answer)),
                  blockNumber_after (processBlock cfg gca ver m n answer))
       else None)) \<and>
   (\<forall>i < length (poll cfg gca ver m n es).
      fst (poll cfg gca ver m n es ! i) =
        n + int (length (filter snd (take i (poll cfg gca ver m n es))))) \<and>
   map fst (filter snd (poll cfg gca ver m n es)) =
     map (\<lambda>i. n + int i) [0..<length (filter snd (poll cfg gca ver m n es))] \<and>
   (\<forall>x \<in> set (poll cfg gca ver m n es).
      \<exists>txs. Answer (Resolved (Some txs)) \<in> set es \<and>
        (snd x \<longleftrightarrow>
           (\<forall>tx \<in> set txs.
              createsContract tx \<longrightarrow> (\<exists>address. gca tx = Some address \<and> ver address \<noteq> None)))) \<and>
   ((\<forall>tx. gca tx \<noteq> None) \<and> (\<forall>address. ver address \<noteq> None) \<longrightarrow>
      poll cfg gca ver m n es =
        map (\<lambda>i. (n + int i, True)) [0..<length (poll cfg gca ver m n es)]) \<and>
   (running m \<and> Stop \<notin> set es \<longrightarrow>
      length (poll cfg gca ver m n es) = length (filter is_block es))"
proof (intro conjI allI impI ballI)
  show "map fst (filter snd (poll cfg gca ver m n es)) =
     map (\<lambda>i. n + int i) [0..<length (filter snd (poll cfg gca ver m n es))]"
    by (rule poll_completed)
next
  fix x assume "x \<in> set (poll cfg gca ver m n es)"
  from poll_entries [OF this]
  show "\<exists>txs. Answer (Resolved (Some txs)) \<in> set es \<and>
        (snd x \<longleftrightarrow>
           (\<forall>tx \<in> set txs.
              createsContract tx \<longrightarrow> (\<exists>address. gca tx = Some address \<and> ver address \<noteq> None)))"
    by (auto simp: transaction_loop_completes)
next
  assume "(\<forall>tx. gca tx \<noteq> None) \<and> (\<forall>address. ver address \<noteq> None)"
  then have "\<forall>tx. gca tx \<noteq> None" "\<forall>address. ver address \<noteq> None" by simp_all
  then show "poll cfg gca ver m n es =
        map (\<lambda>i. (n + int i, True)) [0..<length (poll cfg gca ver m n es)]"
    by (rule poll_no_throw)
next
  assume "running m \<and> Stop \<notin> set es"
  then show "length (poll cfg gca ver m n es) = length (filter is_block es)"
    by (simp add: poll_running_count)
next
  fix i assume "i < length (poll cfg gca ver m n es)"
  then show "fst (poll cfg gca ver m n es ! i) =
        n + int (length (filter snd (take i (poll cfg gca ver m n es))))"
    by (rule poll_nth)
qed (simp_all add: processBlock_blockNumber processBlock_rescheduled
       transaction_loop_completes)

lemma poll_example_run:
  "poll default_config (\<lambda>tx. Some []) (\<lambda>a. Some False) \<lparr>getBlockPause = 10000, running = True\<rparr>
     100 example_run
     = [(100, True), (101, True), (102, True)]"
  by (simp add: example_run_def block_event_def processBlock_eq Let_def)

lemma poll_creations:
  "poll default_config toy_getContractAddress toy_isVerified
     \<lparr>getBlockPause = 10000, running = True\<rparr> 7
     [Answer (Resolved (Some creations)), Answer (Resolved (Some creations))]
     = [(7, False), (7, False)]"
  by (simp add: processBlock_eq Let_def creations_def toy_getContractAddress_def
      toy_isVerified_def createsContract_def)

text \<open>
  C9 as stated fails: the block 7 is fetched, the first of its two contract creations is
  handed to \<open>processBytecode\<close>, \<open>getContractAddress\<close> throws on the second, and the
  timer is armed with the block number 7 again; the monitor goes through the block a second
  time.
\<close>

theorem thrown_handler_repeats_block_counterexample:
  "blockNumber_after (processBlock default_config toy_getContractAddress toy_isVerified
      \<lparr>getBlockPause = 10000, running = True\<rparr> 7 (Resolved (Some creations))) = 7 \<and>
   processBytecode_calls (processBlock default_config toy_getContractAddress toy_isVerified
      \<lparr>getBlockPause = 10000, running = True\<rparr> 7 (Resolved (Some creations)))
     = [(js ''0x60'', js ''0xA'')] \<and>
   map_option snd (rescheduled (processBlock default_config toy_getContractAddress toy_isVerified
      \<lparr>getBlockPause = 10000, running = True\<rparr> 7 (Resolved (Some creations)))) = Some 7 \<and>
   poll default_config toy_getContractAddress toy_isVerified
     \<lparr>getBlockPause = 10000, running = True\<rparr> 7
     [Answer (Resolved (Some creations)), Answer (Resolved (Some creations))]
     = [(7, False), (7, False)]"
  by (simp add: poll_creations)
    (simp add: processBlock_eq creations_def toy_getContractAddress_def
      toy_isVerified_def createsContract_def js_def)

theorem block_number_advances_when_loop_completes_witness:
  "poll default_config (\<lambda>tx. Some []) (\<lambda>a. Some False) \<lparr>getBlockPause = 10000, running = True\<rparr>
     100 example_run
     = [(100, True), (101, True), (102, True)] \<and>
   length (poll default_config (\<lambda>tx. Some []) (\<lambda>a. Some False)
             \<lparr>getBlockPause = 10000, running = True\<rparr> 100
             [block_event, Answer (Resolved None), Answer Rejected, block_event]) = 2 \<and>
   blockNumber_after (processBlock default_config toy_getContractAddress toy_isVerified
      \<lparr>getBlockPause = 10000, running = True\<rparr> 7 (Resolved (Some creations))) = 7 \<and>
   blockNumber_after (processBlock default_config toy_getContractAddress toy_isVerified
      \<lparr>getBlockPause = 10000, running = True\<rparr> 7 (Resolved (Some (take 1 creations)))) = 8 \<and>
   map fst (filter snd (poll default_config toy_getContractAddress toy_isVerified
     \<lparr>getBlockPause = 10000, running = True\<rparr> 7
     [Answer (Resolved (Some creations)), Answer (Resolved (Some (take 1 creations))),
      Answer (Resolved (Some creations))])) = [7]"
proof -
  let ?m = "\<lparr>getBlockPause = 10000, running = True\<rparr>"
  let ?es = "[block_event, Answer (Resolved None), Answer Rejected, block_event]"
  let ?fs = "[Answer (Resolved (Some creations)), Answer (Resolved (Some (take 1 creations))),
      Answer (Resolved (Some creations))]"
  have "running ?m \<and> Stop \<notin> set ?es" by (simp add: block_event_def)
  then have "length (poll default_config (\<lambda>tx. Some []) (\<lambda>a. Some False) ?m 100 ?es) =
        length (filter is_block ?es)"
    using block_number_advances_when_loop_completes
      [of default_config "\<lambda>tx. Some []" "\<lambda>a. Some False" ?m 100 "[]" ?es]
    by blast
  moreover have "length (filter is_block ?es) = 2" by (simp add: is_block_def block_event_def)
  moreover have "blockNumber_after (processBlock default_config toy_getContractAddress
      toy_isVerified ?m 7 (Resolved (Some creations))) = 7"
    using block_number_advances_when_loop_completes
      [of default_config toy_getContractAddress toy_isVerified ?m 7 creations "[]"]
    by (simp add: creations_def toy_getContractAddress_def toy_isVerified_def
        createsContract_def)
  moreover have "blockNumber_after (processBlock default_config toy_getContractAddress
      toy_isVerified ?m 7 (Resolved (Some (take 1 creations)))) = 8"
    using block_number_advances_when_loop_completes
      [of default_config toy_getContractAddress toy_isVerified ?m 7 "take 1 creations" "[]"]
    by (simp add: creations_def toy_getContractAddress_def toy_isVerified_def
        createsContract_def)
  moreover have "map fst (filter snd (poll default_config toy_getContractAddress
      toy_isVerified ?m 7 ?fs)) = [7]"
    by (simp add: processBlock_eq Let_def creations_def toy_getContractAddress_def
      toy_isVerified_def createsContract_def)
  ultimately show ?thesis by (simp add: poll_example_run)
qed

end
